theory Spec2Isabelle
  imports Complex_Main "HOL-Library.Char_ord" "HOL-Library.List_Lexorder"
begin

text \<open>
  A model of the scroll engine bundled in \<open>src/setupScrollama.js\<close>: the geometry and the
  threshold logic of the IntersectionObserver polyfill, and the step notifications and the
  session methods of scrollama. Each definition carries the name of the function it follows.
\<close>

section \<open>Numbers\<close>

text \<open>
  JavaScript numbers are modelled as reals. In the geometry, the ratios and the offsets the
  operations are the real ones: comparisons, \<open>Math.max\<close>, \<open>Math.min\<close>, \<open>Math.ceil\<close>,
  addition, subtraction, multiplication and division. Where the source tests for \<open>NaN\<close>
  the value is a \<open>jsnum\<close>, which adds it.
\<close>

datatype jsnum = NaN | Num real

subsection \<open>Double precision\<close>

text \<open>
  The progress thresholds are quotients and products of doubles, and which numbers the list
  holds depends on their rounding. An arithmetic operation of JavaScript returns the double
  nearest to the real result, a tie going to the even significand (IEEE 754 binary64, round
  to nearest even). A double is a multiple of 2 to the power e - 52, where e is the binary
  exponent of its magnitude kept within -1022 .. 1023: below 2 to the power -1022 the
  doubles are subnormal and share the exponent -1022.

  \<open>expDown n x\<close> is the exponent of x < 1 found in at most n halvings, \<open>expUp n x\<close> that
  of x \<ge> 1 in at most n doublings.
\<close>

primrec expDown :: "nat \<Rightarrow> real \<Rightarrow> int" where
  "expDown 0 x = 0"
| "expDown (Suc n) x = (if x < 1 then expDown n (2 * x) - 1 else 0)"

primrec expUp :: "nat \<Rightarrow> real \<Rightarrow> int" where
  "expUp 0 x = 0"
| "expUp (Suc n) x = (if 2 \<le> x then expUp n (x / 2) + 1 else 0)"

definition exponent :: "real \<Rightarrow> int" where
  "exponent x = (if x < 1 then expDown 1022 x else expUp 1023 x)"

text \<open>The nearest integer, a tie going to the even one.\<close>

definition roundHalfEven :: "real \<Rightarrow> int" where
  "roundHalfEven x =
     (let f = \<lfloor>x\<rfloor>; d = x - of_int f
      in if d < 1/2 then f else if 1/2 < d then f + 1 else if even f then f else f + 1)"

text \<open>
  The double that an operation with the real result x returns. A result of magnitude 2 to
  the power 1024 or more is \<open>Infinity\<close> in JavaScript and has no counterpart here; the one
  operation below that can reach it is a quotient whose size decides the outcome by itself.
\<close>

definition roundDouble :: "real \<Rightarrow> real" where
  "roundDouble x =
     (let ulp = 2 powi (exponent \<bar>x\<bar> - 52)
      in of_int (roundHalfEven (x / ulp)) * ulp)"

section \<open>Geometry (IntersectionObserver polyfill)\<close>

record rect =
  rect_top :: real
  rect_bottom :: real
  rect_left :: real
  rect_right :: real
  rect_width :: real
  rect_height :: real

text \<open>\<open>getEmptyRect()\<close>\<close>

definition getEmptyRect :: rect where
  "getEmptyRect =
     \<lparr>rect_top = 0, rect_bottom = 0, rect_left = 0, rect_right = 0,
      rect_width = 0, rect_height = 0\<rparr>"

text \<open>
  \<open>computeRectIntersection(rect1, rect2)\<close>: the source returns
  \<open>(width >= 0 && height >= 0) && {...}\<close>, that is \<open>false\<close> when a dimension is negative;
  \<open>None\<close> stands for that falsy result.
\<close>

definition computeRectIntersection :: "rect \<Rightarrow> rect \<Rightarrow> rect option" where
  "computeRectIntersection rect1 rect2 =
     (let top = max (rect_top rect1) (rect_top rect2);
          bottom = min (rect_bottom rect1) (rect_bottom rect2);
          left = max (rect_left rect1) (rect_left rect2);
          right = min (rect_right rect1) (rect_right rect2);
          width = right - left;
          height = bottom - top
      in if width \<ge> 0 \<and> height \<ge> 0
         then Some \<lparr>rect_top = top, rect_bottom = bottom, rect_left = left,
                     rect_right = right, rect_width = width, rect_height = height\<rparr>
         else None)"

text \<open>A point lies in a rectangle when it is within its four edges (edges included).\<close>

definition inside :: "real \<times> real \<Rightarrow> rect \<Rightarrow> bool" where
  "inside p r \<longleftrightarrow>
     rect_left r \<le> fst p \<and> fst p \<le> rect_right r \<and> rect_top r \<le> snd p \<and> snd p \<le> rect_bottom r"

subsection \<open>Root margins\<close>

datatype marginUnit = Px | Percent

record margin =
  mvalue :: real
  munit :: marginUnit

text \<open>
  The callback of \<open>this._rootMarginValues.map(function(margin, i) {...})\<close>:
  a \<open>px\<close> margin is its value, a \<open>%\<close> margin is taken of \<open>rect.width\<close> at an odd index
  and of \<open>rect.height\<close> at an even one.
\<close>

definition marginPixels :: "rect \<Rightarrow> margin \<Rightarrow> nat \<Rightarrow> real" where
  "marginPixels rect m i =
     (if munit m = Px then mvalue m
      else mvalue m * (if i mod 2 \<noteq> 0 then rect_width rect else rect_height rect) / 100)"

text \<open>
  \<open>IntersectionObserver.prototype._expandRectByRootMargin(rect)\<close>, with
  \<open>this._rootMarginValues\<close> as the first argument. \<open>_parseRootMargin\<close> always leaves at
  least four entries; with fewer, \<open>margins[k]\<close> is \<open>undefined\<close> and the edges are
  \<open>NaN\<close>, which is \<open>None\<close> here.
\<close>

definition expandRectByRootMargin :: "margin list \<Rightarrow> rect \<Rightarrow> rect option" where
  "expandRectByRootMargin rootMarginValues rect =
     (let margins = map (\<lambda>(m, i). marginPixels rect m i)
                        (zip rootMarginValues [0..<length rootMarginValues])
      in if length margins < 4 then None
         else
           let top = rect_top rect - margins ! 0;
               right = rect_right rect + margins ! 1;
               bottom = rect_bottom rect + margins ! 2;
               left = rect_left rect - margins ! 3
           in Some \<lparr>rect_top = top, rect_bottom = bottom, rect_left = left, rect_right = right,
                     rect_width = right - left, rect_height = bottom - top\<rparr>)"

text \<open>
  What a margin contributes according to the specification: a pixel margin its value, a
  percentage margin that share of the given dimension.
\<close>

definition contribution :: "margin \<Rightarrow> real \<Rightarrow> real" where
  "contribution m extent =
     (case munit m of Px \<Rightarrow> mvalue m | Percent \<Rightarrow> mvalue m * extent / 100)"

subsection \<open>Threshold crossing\<close>

text \<open>
  The fields of an \<open>IntersectionObserverEntry\<close> that the registry and the step handlers read.
\<close>

record entry =
  boundingClientRect :: rect
  isIntersecting :: bool
  intersectionRatio :: real

text \<open>\<open>e.isIntersecting ? e.intersectionRatio || 0 : -1\<close>\<close>

definition effectiveRatio :: "entry \<Rightarrow> real" where
  "effectiveRatio e =
     (if isIntersecting e
      then (if intersectionRatio e \<noteq> 0 then intersectionRatio e else 0)
      else -1)"

text \<open>The \<open>for\<close> loop over \<open>this.thresholds\<close>, leaving with \<open>true\<close> at the first hit.\<close>

fun crossesAny :: "real \<Rightarrow> real \<Rightarrow> real list \<Rightarrow> bool" where
  "crossesAny oldRatio newRatio [] = False"
| "crossesAny oldRatio newRatio (threshold # rest) =
     (if threshold = oldRatio \<or> threshold = newRatio \<or>
         (threshold < oldRatio) \<noteq> (threshold < newRatio)
      then True
      else crossesAny oldRatio newRatio rest)"

text \<open>
  \<open>IntersectionObserver.prototype._hasCrossedThreshold(oldEntry, newEntry)\<close>;
  the result \<open>undefined\<close> is the falsy \<open>False\<close>. \<open>oldEntry\<close> may be \<open>null\<close>.
\<close>

definition hasCrossedThreshold :: "real list \<Rightarrow> entry option \<Rightarrow> entry \<Rightarrow> bool" where
  "hasCrossedThreshold thresholds oldEntry newEntry =
     (let oldRatio = (case oldEntry of None \<Rightarrow> -1 | Some e \<Rightarrow> effectiveRatio e);
          newRatio = effectiveRatio newEntry
      in if oldRatio = newRatio then False
         else crossesAny oldRatio newRatio thresholds)"

text \<open>An entry with the given intersection state and ratio (its rectangle plays no role).\<close>

definition mkEntry :: "bool \<Rightarrow> real \<Rightarrow> entry" where
  "mkEntry i r = \<lparr>boundingClientRect = getEmptyRect, isIntersecting = i, intersectionRatio = r\<rparr>"

section \<open>Threshold sets\<close>

text \<open>
  The values a caller can pass as \<open>threshold\<close>: a single value or an array of values.
  Beside numbers and \<open>NaN\<close> the model has the non-numeric values \<open>undefined\<close>,
  \<open>null\<close>, booleans and strings.
\<close>

datatype jsval = Undefined | Null | Boolean bool | String string | Number jsnum

datatype thresholdArg = Single jsval | Array "jsval list"

text \<open>
  What a call can end in instead of returning: the \<open>Error\<close> thrown by
  \<open>_initThresholds\<close>, the \<open>Error\<close> thrown by \<open>_parseRootMargin\<close>, a
  \<open>TypeError\<close> on reading a property of \<open>null\<close> or \<open>undefined\<close>, and a loop that
  never ends.
\<close>

datatype error = ThresholdError | RootMarginError | TypeError | NoReturn

text \<open>JavaScript truthiness, as \<open>opt_threshold || [0]\<close> uses it.\<close>

fun truthy :: "jsval \<Rightarrow> bool" where
  "truthy Undefined = False"
| "truthy Null = False"
| "truthy (Boolean b) = b"
| "truthy (String s) = (s \<noteq> [])"
| "truthy (Number NaN) = False"
| "truthy (Number (Num x)) = (x \<noteq> 0)"

text \<open>
  The string form that the default comparison of \<open>Array.prototype.sort\<close> compares.
  The conversion of a finite number to its string is ECMAScript's \<open>Number::toString\<close>;
  it is a parameter of the model.
\<close>

fun toString :: "(real \<Rightarrow> string) \<Rightarrow> jsval \<Rightarrow> string" where
  "toString numberToString Undefined = ''undefined''"
| "toString numberToString Null = ''null''"
| "toString numberToString (Boolean b) = (if b then ''true'' else ''false'')"
| "toString numberToString (String s) = s"
| "toString numberToString (Number NaN) = ''NaN''"
| "toString numberToString (Number (Num x)) = numberToString x"

text \<open>
  \<open>threshold.sort()\<close> without a comparison function: \<open>undefined\<close> elements go last, the
  others are ordered by their string forms, compared code unit by code unit.
\<close>

definition sort_default :: "(real \<Rightarrow> string) \<Rightarrow> jsval list \<Rightarrow> jsval list" where
  "sort_default numberToString a =
     sort_key (toString numberToString) (filter (\<lambda>v. v \<noteq> Undefined) a)
       @ filter (\<lambda>v. v = Undefined) a"

text \<open>
  The \<open>filter\<close> callback of \<open>_initThresholds\<close>, run over the sorted array \<open>a\<close>:
  \<open>prev\<close> is \<open>a[i - 1]\<close> (\<open>None\<close> at index 0, where it is \<open>undefined\<close>). An element
  that is not a number, is \<open>NaN\<close>, is below 0 or above 1 throws; an element is kept when it
  differs from its predecessor.
\<close>

fun filterThresholds :: "jsval option \<Rightarrow> jsval list \<Rightarrow> error + real list" where
  "filterThresholds prev [] = Inr []"
| "filterThresholds prev (t # rest) =
     (case t of
        Number (Num x) \<Rightarrow>
          if x < 0 \<or> x > 1 then Inl ThresholdError
          else (case filterThresholds (Some t) rest of
                  Inl e \<Rightarrow> Inl e
                | Inr kept \<Rightarrow> Inr (if Some t \<noteq> prev then x # kept else kept))
      | _ \<Rightarrow> Inl ThresholdError)"

text \<open>\<open>IntersectionObserver.prototype._initThresholds(opt_threshold)\<close>\<close>

definition initThresholds :: "(real \<Rightarrow> string) \<Rightarrow> thresholdArg \<Rightarrow> error + real list" where
  "initThresholds numberToString opt_threshold =
     (let threshold =
            (case opt_threshold of
               Array a \<Rightarrow> a
             | Single v \<Rightarrow> if truthy v then [v] else [Number (Num 0)])
      in filterThresholds None (sort_default numberToString threshold))"


section \<open>Scroll session (scrollama)\<close>

text \<open>Sequencing of calls that may throw: the first error ends the run.\<close>

definition andThen :: "error + 'a \<Rightarrow> ('a \<Rightarrow> error + 'b) \<Rightarrow> error + 'b" where
  "andThen r f = (case r of Inl e \<Rightarrow> Inl e | Inr x \<Rightarrow> f x)"

text \<open>
  A DOM element is a number, its identity. A step element is handed to the notification
  functions as its \<open>data-scrollama-index\<close>: \<open>indexSteps\<close> writes \<open>i\<close> on
  \<open>stepEl[i]\<close> and \<open>getIndex\<close> reads it back.
\<close>

type_synonym element = nat

text \<open>
  \<open>'up'\<close> and \<open>'down'\<close>, \<open>'enter'\<close> and \<open>'exit'\<close>; \<open>null\<close> is \<open>None\<close>.
  A step state is one element of \<open>stepStates\<close>; \<open>containerState\<close> has the same shape.
\<close>

datatype direction = Up | Down
datatype phase = Enter | Exit

record stepState =
  direction :: "direction option"
  state :: "phase option"

text \<open>
  A property of the \<open>callback\<close> object: missing, \<open>null\<close>, a value that is not a
  function, or a function (named by a number).
\<close>

datatype cbslot = Absent | NullSlot | NonFunction | Function nat

record callback =
  stepEnter :: cbslot
  stepExit :: cbslot
  stepProgress :: cbslot
  containerEnter :: cbslot
  containerExit :: cbslot

text \<open>
  What a session does to the outside, in order: the callbacks it invokes with their
  payload (index and direction, index and progress, direction), the debug overlay calls
  \<open>notifyStep\<close>, \<open>setup\<close> and \<open>update\<close>, and \<open>console.error\<close>.
  A callback is taken to return without calling the session or changing the step states it
  is handed.
\<close>

datatype event =
    OnStepEnter nat direction
  | OnStepExit nat direction
  | OnStepProgress nat real
  | OnContainerEnter "direction option"
  | OnContainerExit "direction option"
  | DebugStep nat phase
  | DebugSetup
  | DebugUpdate real
  | ConsoleError string

text \<open>
  An \<open>IntersectionObserver\<close>: the handler it was created with, its targets with their last
  entry, its parsed root margin, its thresholds, and whether it listens to the document.
\<close>

datatype handler =
    IntersectTop | IntersectBottom | IntersectStepAbove | IntersectStepBelow
  | IntersectStepProgress | IntersectViewportAbove | IntersectViewportBelow

record observationTarget =
  element :: element
  entry :: "entry option"

record observer =
  obs_callback :: handler
  observationTargets :: "observationTarget list"
  rootMarginValues :: "margin list"
  thresholds :: "real list"
  monitoringIntersections :: bool

text \<open>
  The \<open>io\<close> object of a session. A missing property and a \<open>null\<close> one are both
  \<open>None\<close>. The property names carry the prefix \<open>io_\<close>.
\<close>

record io =
  io_top :: "observer option"
  io_bottom :: "observer option"
  io_stepAbove :: "observer list option"
  io_stepBelow :: "observer list option"
  io_stepProgress :: "observer list option"
  io_viewportAbove :: "observer list option"
  io_viewportBelow :: "observer list option"

text \<open>
  The variables of one \<open>scrollama()\<close> closure, with the trace of its effects.
  \<open>id\<close> is \<open>sid\<close> and \<open>direction\<close> is \<open>cur_direction\<close> here; \<open>exclude\<close>, an
  array holding \<open>true\<close> at the excluded indices, is the set of these indices.
\<close>

record session =
  callback :: callback
  io :: io
  containerEl :: "element option"
  graphicEl :: "element option"
  stepEl :: "element list option"
  sid :: "string option"
  offsetVal :: real
  offsetMargin :: real
  vh :: real
  ph :: real
  stepOffsetHeight :: "real list option"
  stepOffsetTop :: "real list option"
  bboxGraphic :: "rect option"
  isReady :: bool
  isEnabled :: bool
  debugMode :: bool
  progressMode :: bool
  progressThreshold :: real
  preserveOrder :: bool
  triggerOnce :: bool
  stepStates :: "stepState list option"
  containerState :: "stepState option"
  previousYOffset :: real
  cur_direction :: "direction option"
  exclude :: "nat set"
  trace :: "event list"


text \<open>
  What a session reads from its host: the number-to-string conversion of the language,
  \<open>window.innerHeight\<close>, \<open>getPageHeight()\<close>, \<open>el.offsetHeight\<close>,
  \<open>getOffsetTop(el)\<close>, \<open>el.getBoundingClientRect()\<close> and the result of
  \<open>generateId()\<close>.
\<close>

record env =
  numberToString :: "real \<Rightarrow> string"
  innerHeight :: real
  pageHeight :: real
  offsetHeight :: "element \<Rightarrow> real"
  offsetTop :: "element \<Rightarrow> real"
  boundingRect :: "element \<Rightarrow> rect"
  generatedId :: string

text \<open>
  The argument of \<open>setup\<close>. The selectors are given resolved: \<open>opt_step\<close> is
  \<open>selectAll(step)\<close>, \<open>opt_container\<close> is \<open>container ? select(container) : null\<close>,
  and likewise \<open>opt_graphic\<close>. An option left out is \<open>None\<close>.
\<close>

record options =
  opt_container :: "element option"
  opt_graphic :: "element option"
  opt_step :: "element list"
  opt_offset :: "jsnum option"
  opt_progress :: "bool option"
  opt_threshold :: "real option"
  opt_debug :: "bool option"
  opt_order :: "bool option"
  opt_once :: "bool option"

text \<open>The initial values of the closure's variables.\<close>

definition scrollama :: session where
  "scrollama =
     \<lparr>callback = \<lparr>stepEnter = Absent, stepExit = Absent, stepProgress = Absent,
                   containerEnter = Absent, containerExit = Absent\<rparr>,
      io = \<lparr>io_top = None, io_bottom = None, io_stepAbove = None, io_stepBelow = None,
             io_stepProgress = None, io_viewportAbove = None, io_viewportBelow = None\<rparr>,
      containerEl = None, graphicEl = None, stepEl = None, sid = None,
      offsetVal = 0, offsetMargin = 0, vh = 0, ph = 0,
      stepOffsetHeight = None, stepOffsetTop = None, bboxGraphic = None,
      isReady = False, isEnabled = False, debugMode = False, progressMode = False,
      progressThreshold = 0, preserveOrder = False, triggerOnce = False,
      stepStates = None, containerState = None, previousYOffset = -1,
      cur_direction = None, exclude = {}, trace = []\<rparr>"

text \<open>\<open>callback.x && typeof callback.x === 'function'\<close>\<close>

fun callable :: "cbslot \<Rightarrow> bool" where
  "callable (Function f) = True"
| "callable _ = False"

text \<open>Appends an event to the trace.\<close>

definition emit :: "event \<Rightarrow> session \<Rightarrow> session" where
  "emit e st = st\<lparr>trace := trace st @ [e]\<rparr>"

text \<open>
  \<open>stepStates[index].direction = direction; stepStates[index].state = ...\<close>: a
  \<open>TypeError\<close> when \<open>stepStates\<close> is \<open>null\<close> or has no element at \<open>index\<close>.
\<close>

definition setStepState :: "session \<Rightarrow> nat \<Rightarrow> direction \<Rightarrow> phase \<Rightarrow> error + session" where
  "setStepState st index d p =
     (case stepStates st of
        None \<Rightarrow> Inl TypeError
      | Some states \<Rightarrow>
          if index < length states
          then Inr (st\<lparr>stepStates :=
                      Some (states[index := \<lparr>direction = Some d, state = Some p\<rparr>])\<rparr>)
          else Inl TypeError)"

text \<open>Reading \<open>stepStates[i]\<close> and then one of its properties.\<close>

definition getStepState :: "session \<Rightarrow> nat \<Rightarrow> error + stepState" where
  "getStepState st i =
     (case stepStates st of
        None \<Rightarrow> Inl TypeError
      | Some states \<Rightarrow> if i < length states then Inr (states ! i) else Inl TypeError)"

text \<open>\<open>notifyStepProgress(element, progress)\<close>\<close>

definition notifyStepProgress :: "session \<Rightarrow> nat \<Rightarrow> real \<Rightarrow> session" where
  "notifyStepProgress st index progress =
     (if callable (stepProgress (callback st)) then emit (OnStepProgress index progress) st
      else st)"

text \<open>\<open>notifyStepExit(element, direction)\<close>\<close>

definition notifyStepExit :: "session \<Rightarrow> nat \<Rightarrow> direction \<Rightarrow> error + session" where
  "notifyStepExit st index d =
     andThen (setStepState st index d Exit) (\<lambda>st1.
       let st2 = (if progressMode st1
                  then (if d = Down then notifyStepProgress st1 index 1
                        else notifyStepProgress st1 index 0)
                  else st1);
           st3 = (if callable (stepExit (callback st2))
                  then (let st' = emit (OnStepExit index d) st2
                        in if debugMode st' then emit (DebugStep index Exit) st' else st')
                  else st2)
       in Inr st3)"

text \<open>
  The end of \<open>notifyStepEnter\<close>: the enter callback, unless the step is excluded, with the
  debug call and the exclusion under \<open>triggerOnce\<close>, then the priming progress callback.
\<close>

definition enterCallbacks :: "session \<Rightarrow> nat \<Rightarrow> direction \<Rightarrow> session" where
  "enterCallbacks st index d =
     (let st1 = (if callable (stepEnter (callback st)) \<and> index \<notin> exclude st
                 then (let st' = emit (OnStepEnter index d) st;
                           st'' = (if debugMode st' then emit (DebugStep index Enter) st' else st')
                       in if triggerOnce st'' then st''\<lparr>exclude := insert index (exclude st'')\<rparr>
                          else st'')
                 else st)
      in if progressMode st1
         then (if d = Down then notifyStepProgress st1 index 0
               else notifyStepProgress st1 index 1)
         else st1)"

text \<open>
  \<open>notifyStepEnter(element, direction, false)\<close>, as \<open>notifyOthers\<close> calls it: with
  \<open>check\<close> false both \<open>notifyOthers\<close> branches are skipped.
\<close>

definition notifyStepEnterUnchecked :: "session \<Rightarrow> nat \<Rightarrow> direction \<Rightarrow> error + session" where
  "notifyStepEnterUnchecked st index d =
     andThen (setStepState st index d Enter) (\<lambda>st1. Inr (enterCallbacks st1 index d))"

text \<open>
  The bodies of the two loops of \<open>notifyOthers\<close>. \<open>ss\<close> is the object
  \<open>stepStates[i]\<close> itself, which \<open>notifyStepExit\<close> updates in place: the second test
  reads the direction after the first branch has run, so the state is read again.
\<close>

definition skippedAbove :: "session \<Rightarrow> nat \<Rightarrow> error + session" where
  "skippedAbove st i =
     andThen (getStepState st i) (\<lambda>ss.
     andThen (if state ss = Some Enter then notifyStepExit st i Down else Inr st) (\<lambda>st1.
     andThen (getStepState st1 i) (\<lambda>ss'.
       if direction ss' = Some Up
       then andThen (notifyStepEnterUnchecked st1 i Down) (\<lambda>st2. notifyStepExit st2 i Down)
       else Inr st1)))"

definition skippedBelow :: "session \<Rightarrow> nat \<Rightarrow> error + session" where
  "skippedBelow st i =
     andThen (getStepState st i) (\<lambda>ss.
     andThen (if state ss = Some Enter then notifyStepExit st i Up else Inr st) (\<lambda>st1.
     andThen (getStepState st1 i) (\<lambda>ss'.
       if direction ss' = Some Down
       then andThen (notifyStepEnterUnchecked st1 i Up) (\<lambda>st2. notifyStepExit st2 i Up)
       else Inr st1)))"

text \<open>\<open>for (let i = 0; i < index; i++)\<close>, from the current \<open>i\<close>.\<close>

function notifyOthersAbove :: "nat \<Rightarrow> nat \<Rightarrow> session \<Rightarrow> error + session" where
  "notifyOthersAbove i index st =
     (if i < index
      then andThen (skippedAbove st i) (notifyOthersAbove (Suc i) index)
      else Inr st)"
  by pat_completeness auto
termination
  by (relation "measure (\<lambda>(i, index, st). index - i)") auto

declare notifyOthersAbove.simps [simp del]

text \<open>
  \<open>for (let i = stepStates.length - 1; i > index; i--)\<close>: the first argument is
  \<open>i + 1\<close>, so that the loop starts at \<open>stepStates.length\<close> and ends at 0.
\<close>

fun notifyOthersBelow :: "nat \<Rightarrow> nat \<Rightarrow> session \<Rightarrow> error + session" where
  "notifyOthersBelow 0 index st = Inr st"
| "notifyOthersBelow (Suc i) index st =
     (if i > index
      then andThen (skippedBelow st i) (notifyOthersBelow i index)
      else Inr st)"

text \<open>\<open>notifyOthers(index, location)\<close>\<close>

datatype location = Above | Below

definition notifyOthers :: "session \<Rightarrow> nat \<Rightarrow> location \<Rightarrow> error + session" where
  "notifyOthers st index loc =
     (case loc of
        Above \<Rightarrow> notifyOthersAbove 0 index st
      | Below \<Rightarrow>
          (case stepStates st of
             None \<Rightarrow> Inl TypeError
           | Some states \<Rightarrow> notifyOthersBelow (length states) index st))"

text \<open>\<open>notifyStepEnter(element, direction, check = true)\<close>\<close>

definition notifyStepEnter :: "session \<Rightarrow> nat \<Rightarrow> direction \<Rightarrow> bool \<Rightarrow> error + session" where
  "notifyStepEnter st index d check =
     andThen (setStepState st index d Enter) (\<lambda>st1.
     andThen (if preserveOrder st1 \<and> check \<and> d = Down then notifyOthers st1 index Above
              else Inr st1) (\<lambda>st2.
     andThen (if preserveOrder st2 \<and> check \<and> d = Up then notifyOthers st2 index Below
              else Inr st2) (\<lambda>st3.
       Inr (enterCallbacks st3 index d))))"

subsection \<open>Observers\<close>

text \<open>
  \<open>new IntersectionObserver(callback, {root: null, rootMargin, threshold})\<close> for a root
  margin of the form \<open>`${marginTop}px 0px ${marginBottom}px 0px`\<close>, which
  \<open>_parseRootMargin\<close> reads back as these four pixel values.
\<close>

definition newIntersectionObserver ::
  "env \<Rightarrow> handler \<Rightarrow> real \<Rightarrow> real \<Rightarrow> thresholdArg \<Rightarrow> error + observer" where
  "newIntersectionObserver e cb marginTop marginBottom th =
     andThen (initThresholds (numberToString e) th) (\<lambda>ths.
       Inr \<lparr>obs_callback = cb, observationTargets = [],
            rootMarginValues =
              [\<lparr>mvalue = marginTop, munit = Px\<rparr>, \<lparr>mvalue = 0, munit = Px\<rparr>,
               \<lparr>mvalue = marginBottom, munit = Px\<rparr>, \<lparr>mvalue = 0, munit = Px\<rparr>],
            thresholds = ths, monitoringIntersections = False\<rparr>)"

text \<open>
  \<open>observe\<close>, \<open>unobserve\<close> and \<open>disconnect\<close>. The check that \<open>observe\<close> starts is
  throttled: it runs in a later turn and changes nothing here.
\<close>

definition observe :: "observer \<Rightarrow> element \<Rightarrow> observer" where
  "observe obs target =
     (if list_ex (\<lambda>item. element item = target) (observationTargets obs) then obs
      else obs\<lparr>observationTargets :=
                  observationTargets obs @ [\<lparr>element = target, entry = None\<rparr>],
               monitoringIntersections := True\<rparr>)"

definition unobserve :: "observer \<Rightarrow> element \<Rightarrow> observer" where
  "unobserve obs target =
     (let targets = filter (\<lambda>item. element item \<noteq> target) (observationTargets obs)
      in if targets = []
         then obs\<lparr>observationTargets := targets, monitoringIntersections := False\<rparr>
         else obs\<lparr>observationTargets := targets\<rparr>)"

definition disconnect :: "observer \<Rightarrow> observer" where
  "disconnect obs = obs\<lparr>observationTargets := [], monitoringIntersections := False\<rparr>"

subsection \<open>Progress thresholds\<close>

text \<open>
  \<open>for (let i = 0; i < count; i++) t.push(i * ratio)\<close>: each product is rounded to a
  double. The counter is exact, as it stays below 2 to the power 53.
\<close>

function createThresholdLoop :: "nat \<Rightarrow> int \<Rightarrow> real \<Rightarrow> real list \<Rightarrow> real list" where
  "createThresholdLoop i count ratio t =
     (if int i < count
      then createThresholdLoop (Suc i) count ratio (t @ [roundDouble (real i * ratio)])
      else t)"
  by pat_completeness auto
termination
  by (relation "measure (\<lambda>(i, count, ratio, t). nat (count - int i))") auto

declare createThresholdLoop.simps [simp del]

text \<open>
  \<open>createThreshold(height)\<close>: \<open>count = Math.ceil(height / progressThreshold)\<close> and
  \<open>ratio = 1 / count\<close> are computed in doubles; \<open>Math.ceil\<close> of a double is exact. With
  \<open>progressThreshold\<close> at its initial 0 a positive height gives \<open>count = Infinity\<close>, and a
  count above 4294967295 is more than an array can hold (\<open>push\<close> fails at that length): in
  both cases the loop does not come to its end and the call returns no list. A height that
  is not positive gives, with \<open>progressThreshold\<close> 0, \<open>-Infinity\<close> or \<open>NaN\<close> and an empty
  list.
\<close>

definition createThreshold :: "session \<Rightarrow> real \<Rightarrow> error + real list" where
  "createThreshold st height =
     (if progressThreshold st = 0
      then (if height > 0 then Inl NoReturn else Inr [])
      else
        let count = \<lceil>roundDouble (height / progressThreshold st)\<rceil>;
            ratio = roundDouble (1 / real_of_int count)
        in if 4294967295 < count then Inl NoReturn
           else Inr (createThresholdLoop 0 count ratio []))"

subsection \<open>Session controller\<close>

text \<open>
  \<open>S.offsetTrigger(x)\<close> returns the session object or the offset. The guard
  \<open>x && !isNaN(x)\<close> holds for a number that is neither 0 nor \<open>NaN\<close>; no argument is
  \<open>None\<close>.
\<close>

datatype 'a returned = Session | Value 'a

fun S_offsetTrigger :: "session \<Rightarrow> jsnum option \<Rightarrow> real returned \<times> session" where
  "S_offsetTrigger st None = (Value (offsetVal st), st)"
| "S_offsetTrigger st (Some NaN) = (Value (offsetVal st), st)"
| "S_offsetTrigger st (Some (Num x)) =
     (if x \<noteq> 0 then (Session, st\<lparr>offsetVal := min (max 0 x) 1\<rparr>)
      else (Value (offsetVal st), st))"

text \<open>\<open>stepEl.map((el, i) => ...)\<close> with a callback that may throw.\<close>

fun mapWithIndex ::
  "(element \<Rightarrow> nat \<Rightarrow> error + observer) \<Rightarrow> element list \<Rightarrow> nat \<Rightarrow> error + observer list" where
  "mapWithIndex f [] i = Inr []"
| "mapWithIndex f (el # els) i =
     andThen (f el i) (\<lambda>obs. andThen (mapWithIndex f els (Suc i)) (\<lambda>rest. Inr (obs # rest)))"

text \<open>
  \<open>stepOffsetHeight[i]\<close> and \<open>stepOffsetTop[i]\<close> inside a root margin: \<open>null[i]\<close> is a
  \<open>TypeError\<close>, and a missing element makes a margin that \<open>_parseRootMargin\<close> rejects.
\<close>

definition numAt :: "real list option \<Rightarrow> nat \<Rightarrow> error + real" where
  "numAt xs i =
     (case xs of
        None \<Rightarrow> Inl TypeError
      | Some l \<Rightarrow> if i < length l then Inr (l ! i) else Inl RootMarginError)"

text \<open>One observer per step element; \<open>stepEl.map\<close> on \<open>null\<close> is a \<open>TypeError\<close>.\<close>

definition stepObservers ::
  "session \<Rightarrow> (element \<Rightarrow> nat \<Rightarrow> error + observer) \<Rightarrow> error + observer list" where
  "stepObservers st f =
     (case stepEl st of None \<Rightarrow> Inl TypeError | Some els \<Rightarrow> mapWithIndex f els 0)"

text \<open>\<open>threshold: 0\<close>\<close>

definition zeroThreshold :: thresholdArg where
  "zeroThreshold = Single (Number (Num 0))"

text \<open>
  The seven \<open>update...IO\<close> functions. Each disconnects the observers it replaces, which
  nothing refers to afterwards, and stores the new ones.
\<close>

definition updateViewportAboveIO :: "env \<Rightarrow> session \<Rightarrow> error + session" where
  "updateViewportAboveIO e st =
     andThen (stepObservers st (\<lambda>el i.
        andThen (numAt (stepOffsetTop st) i) (\<lambda>marginTop.
        andThen (numAt (stepOffsetHeight st) i) (\<lambda>h.
        andThen (newIntersectionObserver e IntersectViewportAbove marginTop
                   (- (vh st - offsetMargin st + h)) zeroThreshold) (\<lambda>obs.
          Inr (observe obs el))))))
       (\<lambda>os. Inr (st\<lparr>io := (io st)\<lparr>io_viewportAbove := Some os\<rparr>\<rparr>))"

definition updateViewportBelowIO :: "env \<Rightarrow> session \<Rightarrow> error + session" where
  "updateViewportBelowIO e st =
     andThen (stepObservers st (\<lambda>el i.
        andThen (numAt (stepOffsetHeight st) i) (\<lambda>h.
        andThen (numAt (stepOffsetTop st) i) (\<lambda>t.
        andThen (newIntersectionObserver e IntersectViewportBelow
                   (- (offsetMargin st + h))
                   (ph st - t - h - offsetMargin st) zeroThreshold) (\<lambda>obs.
          Inr (observe obs el))))))
       (\<lambda>os. Inr (st\<lparr>io := (io st)\<lparr>io_viewportBelow := Some os\<rparr>\<rparr>))"

definition updateStepAboveIO :: "env \<Rightarrow> session \<Rightarrow> error + session" where
  "updateStepAboveIO e st =
     andThen (stepObservers st (\<lambda>el i.
        andThen (numAt (stepOffsetHeight st) i) (\<lambda>marginTop.
        andThen (newIntersectionObserver e IntersectStepAbove marginTop
                   (- vh st + offsetMargin st) zeroThreshold) (\<lambda>obs.
          Inr (observe obs el)))))
       (\<lambda>os. Inr (st\<lparr>io := (io st)\<lparr>io_stepAbove := Some os\<rparr>\<rparr>))"

definition updateStepBelowIO :: "env \<Rightarrow> session \<Rightarrow> error + session" where
  "updateStepBelowIO e st =
     andThen (stepObservers st (\<lambda>el i.
        andThen (numAt (stepOffsetHeight st) i) (\<lambda>h.
        andThen (newIntersectionObserver e IntersectStepBelow (- offsetMargin st)
                   (ph st - vh st + h + offsetMargin st) zeroThreshold) (\<lambda>obs.
          Inr (observe obs el)))))
       (\<lambda>os. Inr (st\<lparr>io := (io st)\<lparr>io_stepBelow := Some os\<rparr>\<rparr>))"

definition updateStepProgressIO :: "env \<Rightarrow> session \<Rightarrow> error + session" where
  "updateStepProgressIO e st =
     andThen (stepObservers st (\<lambda>el i.
        andThen (numAt (stepOffsetHeight st) i) (\<lambda>h.
        andThen (createThreshold st h) (\<lambda>th.
        andThen (newIntersectionObserver e IntersectStepProgress (h - offsetMargin st)
                   (- vh st + offsetMargin st) (Array (map (\<lambda>x. Number (Num x)) th))) (\<lambda>obs.
          Inr (observe obs el))))))
       (\<lambda>os. Inr (st\<lparr>io := (io st)\<lparr>io_stepProgress := Some os\<rparr>\<rparr>))"

definition updateTopIO :: "env \<Rightarrow> session \<Rightarrow> element \<Rightarrow> error + session" where
  "updateTopIO e st containerElement =
     andThen (newIntersectionObserver e IntersectTop (vh st) (- vh st) zeroThreshold) (\<lambda>obs.
       Inr (st\<lparr>io := (io st)\<lparr>io_top := Some (observe obs containerElement)\<rparr>\<rparr>))"

definition updateBottomIO :: "env \<Rightarrow> session \<Rightarrow> element \<Rightarrow> error + session" where
  "updateBottomIO e st containerElement =
     (case bboxGraphic st of
        None \<Rightarrow> Inl TypeError
      | Some bbox \<Rightarrow>
          andThen (newIntersectionObserver e IntersectBottom (- rect_height bbox)
                     (rect_height bbox) zeroThreshold) (\<lambda>obs.
            Inr (st\<lparr>io := (io st)\<lparr>io_bottom := Some (observe obs containerElement)\<rparr>\<rparr>)))"

text \<open>\<open>updateIO()\<close>\<close>

definition updateIO :: "env \<Rightarrow> session \<Rightarrow> error + session" where
  "updateIO e st =
     andThen (updateViewportAboveIO e st) (\<lambda>st1.
     andThen (updateViewportBelowIO e st1) (\<lambda>st2.
     andThen (updateStepAboveIO e st2) (\<lambda>st3.
     andThen (updateStepBelowIO e st3) (\<lambda>st4.
     andThen (if progressMode st4 then updateStepProgressIO e st4 else Inr st4) (\<lambda>st5.
       case (containerEl st5, graphicEl st5) of
         (Some c, Some g) \<Rightarrow> andThen (updateTopIO e st5 c) (\<lambda>st6. updateBottomIO e st6 c)
       | _ \<Rightarrow> Inr st5)))))"

text \<open>\<open>handleResize()\<close>\<close>

definition handleResize :: "env \<Rightarrow> session \<Rightarrow> error + session" where
  "handleResize e st =
     (let st1 = st\<lparr>vh := innerHeight e, ph := pageHeight e,
                    bboxGraphic := map_option (boundingRect e) (graphicEl st)\<rparr>;
          st2 = st1\<lparr>offsetMargin := offsetVal st1 * vh st1\<rparr>;
          els = (case stepEl st2 of Some l \<Rightarrow> l | None \<Rightarrow> []);
          st3 = st2\<lparr>stepOffsetHeight := Some (map (offsetHeight e) els),
                     stepOffsetTop := Some (map (offsetTop e) els)\<rparr>
      in andThen (if isEnabled st3 \<and> isReady st3 then updateIO e st3 else Inr st3) (\<lambda>st4.
           Inr (if debugMode st4 then emit (DebugUpdate (offsetMargin st4)) st4 else st4)))"

text \<open>\<open>if (io.x) io.x.forEach(d => d.disconnect())\<close>\<close>

definition disconnectAll :: "observer list option \<Rightarrow> observer list option" where
  "disconnectAll os = map_option (map disconnect) os"

text \<open>\<open>handleEnable(enable)\<close>\<close>

definition handleEnable :: "env \<Rightarrow> bool \<Rightarrow> session \<Rightarrow> error + session" where
  "handleEnable e enable st =
     (if enable \<and> \<not> isEnabled st
      then andThen (if isReady st then updateIO e st else Inr st) (\<lambda>st1.
             Inr (st1\<lparr>isEnabled := True\<rparr>))
      else if \<not> enable
      then Inr (st\<lparr>io := \<lparr>io_top = map_option disconnect (io_top (io st)),
                            io_bottom = map_option disconnect (io_bottom (io st)),
                            io_stepAbove = disconnectAll (io_stepAbove (io st)),
                            io_stepBelow = disconnectAll (io_stepBelow (io st)),
                            io_stepProgress = disconnectAll (io_stepProgress (io st)),
                            io_viewportAbove = disconnectAll (io_viewportAbove (io st)),
                            io_viewportBelow = disconnectAll (io_viewportBelow (io st))\<rparr>,
                    isEnabled := False\<rparr>)
      else Inr st)"

text \<open>\<open>setupStates()\<close>\<close>

definition setupStates :: "session \<Rightarrow> session" where
  "setupStates st =
     st\<lparr>stepStates :=
          Some (map (\<lambda>el. \<lparr>direction = None, state = None\<rparr>)
                    (case stepEl st of Some l \<Rightarrow> l | None \<Rightarrow> [])),
        containerState := Some \<lparr>direction = None, state = None\<rparr>\<rparr>"

text \<open>
  The methods of the session object \<open>S\<close>; \<open>S.setup\<close> is \<open>S_setup\<close>, and so on.
  Each returns the session, which is the new state here.
\<close>

definition S_setup :: "env \<Rightarrow> options \<Rightarrow> session \<Rightarrow> error + session" where
  "S_setup e opts st =
     (let st1 = st\<lparr>sid := Some (generatedId e),
                    stepEl := Some (opt_step opts),
                    containerEl := opt_container opts,
                    graphicEl := opt_graphic opts\<rparr>
      in if opt_step opts = []
         then Inr (emit (ConsoleError ''scrollama error: no step elements'') st1)
         else
           let st2 = st1\<lparr>debugMode := (case opt_debug opts of None \<Rightarrow> False | Some b \<Rightarrow> b),
                          progressMode := (case opt_progress opts of None \<Rightarrow> False | Some b \<Rightarrow> b),
                          preserveOrder := (case opt_order opts of None \<Rightarrow> True | Some b \<Rightarrow> b),
                          triggerOnce := (case opt_once opts of None \<Rightarrow> False | Some b \<Rightarrow> b)\<rparr>;
               st3 = snd (S_offsetTrigger st2
                            (case opt_offset opts of None \<Rightarrow> Some (Num (1/2)) | Some x \<Rightarrow> Some x));
               st4 = st3\<lparr>progressThreshold :=
                            max 1 (case opt_threshold opts of None \<Rightarrow> 4 | Some t \<Rightarrow> t)\<rparr>;
               st5 = st4\<lparr>isReady := True\<rparr>;
               st6 = (if debugMode st5 then emit DebugSetup st5 else st5);
               st7 = setupStates st6
           in andThen (handleResize e st7) (handleEnable e True))"

definition S_resize :: "env \<Rightarrow> session \<Rightarrow> error + session" where
  "S_resize e st = handleResize e st"

definition S_enable :: "env \<Rightarrow> session \<Rightarrow> error + session" where
  "S_enable e st = handleEnable e True st"

definition S_disable :: "env \<Rightarrow> session \<Rightarrow> error + session" where
  "S_disable e st = handleEnable e False st"



definition S_onStepEnter :: "cbslot \<Rightarrow> session \<Rightarrow> session" where
  "S_onStepEnter cb st = st\<lparr>callback := (callback st)\<lparr>stepEnter := cb\<rparr>\<rparr>"

definition S_onStepExit :: "cbslot \<Rightarrow> session \<Rightarrow> session" where
  "S_onStepExit cb st = st\<lparr>callback := (callback st)\<lparr>stepExit := cb\<rparr>\<rparr>"

definition S_onStepProgress :: "cbslot \<Rightarrow> session \<Rightarrow> session" where
  "S_onStepProgress cb st = st\<lparr>callback := (callback st)\<lparr>stepProgress := cb\<rparr>\<rparr>"

definition S_onContainerEnter :: "cbslot \<Rightarrow> session \<Rightarrow> session" where
  "S_onContainerEnter cb st = st\<lparr>callback := (callback st)\<lparr>containerEnter := cb\<rparr>\<rparr>"

definition S_onContainerExit :: "cbslot \<Rightarrow> session \<Rightarrow> session" where
  "S_onContainerExit cb st = st\<lparr>callback := (callback st)\<lparr>containerExit := cb\<rparr>\<rparr>"

section \<open>Notions used in the statements\<close>

text \<open>A threshold value that \<open>_initThresholds\<close> accepts: a number within [0, 1].\<close>

fun validThreshold :: "jsval \<Rightarrow> bool" where
  "validThreshold (Number (Num x)) = (0 \<le> x \<and> x \<le> 1)"
| "validThreshold _ = False"

text \<open>The number in a threshold value.\<close>

fun numOf :: "jsval \<Rightarrow> real" where
  "numOf (Number (Num x)) = x"
| "numOf _ = 0"

text \<open>The observers reachable from the handles of \<open>io\<close>.\<close>

definition registries :: "io \<Rightarrow> observer list" where
  "registries i =
     (case io_top i of None \<Rightarrow> [] | Some obs \<Rightarrow> [obs])
     @ (case io_bottom i of None \<Rightarrow> [] | Some obs \<Rightarrow> [obs])
     @ (case io_stepAbove i of None \<Rightarrow> [] | Some l \<Rightarrow> l)
     @ (case io_stepBelow i of None \<Rightarrow> [] | Some l \<Rightarrow> l)
     @ (case io_stepProgress i of None \<Rightarrow> [] | Some l \<Rightarrow> l)
     @ (case io_viewportAbove i of None \<Rightarrow> [] | Some l \<Rightarrow> l)
     @ (case io_viewportBelow i of None \<Rightarrow> [] | Some l \<Rightarrow> l)"

text \<open>A registry that watches nothing and listens to nothing.\<close>

definition disconnected :: "observer \<Rightarrow> bool" where
  "disconnected obs \<longleftrightarrow> observationTargets obs = [] \<and> \<not> monitoringIntersections obs"


definition measured :: "session \<Rightarrow> bool" where
  "measured st \<longleftrightarrow>
     (case (stepEl st, stepOffsetHeight st, stepOffsetTop st) of
        (Some els, Some hs, Some ts) \<Rightarrow> length hs = length els \<and> length ts = length els
      | _ \<Rightarrow> False)
     \<and> (containerEl st \<noteq> None \<and> graphicEl st \<noteq> None \<longrightarrow> bboxGraphic st \<noteq> None)"






definition disconnectIo :: "io \<Rightarrow> io" where
  "disconnectIo i =
     \<lparr>io_top = map_option disconnect (io_top i),
      io_bottom = map_option disconnect (io_bottom i),
      io_stepAbove = disconnectAll (io_stepAbove i),
      io_stepBelow = disconnectAll (io_stepBelow i),
      io_stepProgress = disconnectAll (io_stepProgress i),
      io_viewportAbove = disconnectAll (io_viewportAbove i),
      io_viewportBelow = disconnectAll (io_viewportBelow i)\<rparr>"

text \<open>
  A concrete host and configuration: two steps, a container and a graphic, default options;
  \<open>session0\<close> is the session that \<open>setup\<close> builds from them.
\<close>

definition env0 :: env where
  "env0 = \<lparr>numberToString = (\<lambda>x. ''0''), innerHeight = 800, pageHeight = 3000,
            offsetHeight = (\<lambda>el. 400), offsetTop = (\<lambda>el. 1000),
            boundingRect = (\<lambda>el. getEmptyRect), generatedId = ''abc0''\<rparr>"

definition opts0 :: options where
  "opts0 = \<lparr>opt_container = Some 1, opt_graphic = Some 2, opt_step = [10, 11],
             opt_offset = None, opt_progress = None, opt_threshold = None,
             opt_debug = None, opt_order = None, opt_once = None\<rparr>"

definition session0 :: session where
  "session0 = (case S_setup env0 opts0 scrollama of Inr st \<Rightarrow> st | Inl e \<Rightarrow> scrollama)"

definition optsNoStep :: options where
  "optsNoStep = \<lparr>opt_container = Some 1, opt_graphic = Some 2, opt_step = [],
             opt_offset = None, opt_progress = None, opt_threshold = None,
             opt_debug = None, opt_order = None, opt_once = None\<rparr>"


subsection \<open>Step notifications in the trace\<close>

text \<open>The enter and exit callbacks among the events of a trace.\<close>

fun isStepEvent :: "event \<Rightarrow> bool" where
  "isStepEvent (OnStepEnter i d) = True"
| "isStepEvent (OnStepExit i d) = True"
| "isStepEvent _ = False"

definition stepEvents :: "event list \<Rightarrow> event list" where
  "stepEvents tr = filter isStepEvent tr"

text \<open>The enter callbacks of step \<open>i\<close> in a trace.\<close>

fun isEnterOf :: "nat \<Rightarrow> event \<Rightarrow> bool" where
  "isEnterOf i (OnStepEnter j d) = (j = i)"
| "isEnterOf i _ = False"

definition entersOf :: "nat \<Rightarrow> event list \<Rightarrow> event list" where
  "entersOf i tr = filter (isEnterOf i) tr"

text \<open>
  What a call of \<open>notifyStepEnter\<close> (with \<open>check = false\<close>) and of
  \<open>notifyStepExit\<close> deliver to the callbacks in a session: the enter callback exists
  and the step is not excluded, the exit callback exists.
\<close>

fun opposite :: "direction \<Rightarrow> direction" where
  "opposite Up = Down"
| "opposite Down = Up"

definition enterEvent :: "session \<Rightarrow> nat \<Rightarrow> direction \<Rightarrow> event list" where
  "enterEvent st j d =
     (if callable (stepEnter (callback st)) \<and> j \<notin> exclude st then [OnStepEnter j d] else [])"

definition exitEvent :: "session \<Rightarrow> nat \<Rightarrow> direction \<Rightarrow> event list" where
  "exitEvent st j d = (if callable (stepExit (callback st)) then [OnStepExit j d] else [])"

text \<open>
  The callbacks one round of a \<open>notifyOthers\<close> loop delivers for step \<open>j\<close>, read off
  the step state \<open>ss\<close> it finds: an entered step is exited; a step that is not entered and
  whose recorded direction is the opposite one is entered and exited.
\<close>

definition skippedEvents :: "session \<Rightarrow> direction \<Rightarrow> stepState \<Rightarrow> nat \<Rightarrow> event list" where
  "skippedEvents st d ss j =
     (if state ss = Some Enter then exitEvent st j d
      else if direction ss = Some (opposite d) then enterEvent st j d @ exitEvent st j d
      else [])"

text \<open>
  The same with both callbacks registered and no step excluded, for a downward and an upward
  entry.
\<close>

definition synthesizedDown :: "stepState \<Rightarrow> nat \<Rightarrow> event list" where
  "synthesizedDown ss j =
     (if state ss = Some Enter then [OnStepExit j Down]
      else if direction ss = Some Up then [OnStepEnter j Down, OnStepExit j Down]
      else [])"

definition synthesizedUp :: "stepState \<Rightarrow> nat \<Rightarrow> event list" where
  "synthesizedUp ss j =
     (if state ss = Some Enter then [OnStepExit j Up]
      else if direction ss = Some Down then [OnStepEnter j Up, OnStepExit j Up]
      else [])"

text \<open>
  The specification's wording for a downward entry: an earlier step that is still entered
  gets a synthesized exit, and when its recorded direction was also down, a synthesized enter
  and exit after it.
\<close>

definition claimedDown :: "stepState \<Rightarrow> nat \<Rightarrow> event list" where
  "claimedDown ss j =
     (if state ss = Some Enter
      then [OnStepExit j Down]
           @ (if direction ss = Some Down then [OnStepEnter j Down, OnStepExit j Down] else [])
      else [])"

text \<open>A notification changes the step states, the exclusions and the trace only.\<close>

definition notifyFrame :: "session \<Rightarrow> session \<Rightarrow> bool" where
  "notifyFrame st st' \<longleftrightarrow>
     st' = st\<lparr>stepStates := stepStates st', exclude := exclude st', trace := trace st'\<rparr>"

text \<open>The body of either \<open>notifyOthers\<close> loop, with the direction as a parameter.\<close>

definition skippedGen :: "direction \<Rightarrow> session \<Rightarrow> nat \<Rightarrow> error + session" where
  "skippedGen d st i =
     andThen (getStepState st i) (\<lambda>ss.
     andThen (if state ss = Some Enter then notifyStepExit st i d else Inr st) (\<lambda>st1.
     andThen (getStepState st1 i) (\<lambda>ss'.
       if direction ss' = Some (opposite d)
       then andThen (notifyStepEnterUnchecked st1 i d) (\<lambda>st2. notifyStepExit st2 i d)
       else Inr st1)))"

text \<open>
  The effect of a \<open>notifyOthers\<close> loop that visits the steps \<open>js\<close> in this order,
  from a session whose step states are \<open>l\<close>.
\<close>

definition othersResult ::
  "direction \<Rightarrow> session \<Rightarrow> stepState list \<Rightarrow> nat list \<Rightarrow> session \<Rightarrow> bool" where
  "othersResult d st l js st' \<longleftrightarrow>
     notifyFrame st st'
     \<and> (\<exists>l'. stepStates st' = Some l' \<and> length l' = length l
            \<and> (\<forall>k. k \<notin> set js \<longrightarrow> l' ! k = l ! k))
     \<and> exclude st \<subseteq> exclude st' \<and> exclude st' \<subseteq> exclude st \<union> set js
     \<and> stepEvents (trace st')
         = stepEvents (trace st) @ concat (map (\<lambda>j. skippedEvents st d (l ! j) j) js)"

text \<open>The steps \<open>notifyOthers\<close> visits for an entry of step \<open>i\<close>, in the order of the visit.\<close>

definition skippedSteps :: "session \<Rightarrow> nat \<Rightarrow> direction \<Rightarrow> bool \<Rightarrow> nat \<Rightarrow> nat list" where
  "skippedSteps st i d check n =
     (if preserveOrder st \<and> check
      then (case d of Down \<Rightarrow> [0..<i] | Up \<Rightarrow> rev [Suc i..<n])
      else [])"

text \<open>The trace of a call that returned.\<close>

definition traceOf :: "error + session \<Rightarrow> event list option" where
  "traceOf r = (case r of Inl e \<Rightarrow> None | Inr st \<Rightarrow> Some (trace st))"

text \<open>
  The calls the intersection handlers make: \<open>notifyStepEnter(target, direction)\<close>, with
  \<open>check\<close> at its default \<open>true\<close>, and \<open>notifyStepExit(target, direction)\<close>.
\<close>

datatype crossing = EnterStep nat direction | ExitStep nat direction

fun crossings :: "crossing list \<Rightarrow> session \<Rightarrow> error + session" where
  "crossings [] st = Inr st"
| "crossings (EnterStep i d # cs) st = andThen (notifyStepEnter st i d True) (crossings cs)"
| "crossings (ExitStep i d # cs) st = andThen (notifyStepExit st i d) (crossings cs)"

text \<open>The step a crossing is about.\<close>

fun crossingIndex :: "crossing \<Rightarrow> nat" where
  "crossingIndex (EnterStep i d) = i"
| "crossingIndex (ExitStep i d) = i"

text \<open>
  \<open>session0\<close> with an enter and an exit callback registered, and that session after step 0
  was entered scrolling down.
\<close>

definition sessionCb :: session where
  "sessionCb = S_onStepExit (Function 2) (S_onStepEnter (Function 1) session0)"

definition sessionEntered0 :: session where
  "sessionEntered0 =
     (case notifyStepEnter sessionCb 0 Down True of Inr st \<Rightarrow> st | Inl e \<Rightarrow> sessionCb)"


text \<open>The state of step \<open>i\<close>, if there is one.\<close>

definition stepStateAt :: "session \<Rightarrow> nat \<Rightarrow> stepState option" where
  "stepStateAt st i =
     (case stepStates st of
        None \<Rightarrow> None
      | Some l \<Rightarrow> if i < length l then Some (l ! i) else None)"

text \<open>The configuration of \<open>opts0\<close> with \<open>once: true\<close>, set up, with both callbacks registered.\<close>

definition optsOnce :: options where
  "optsOnce = opts0\<lparr>opt_once := Some True\<rparr>"

definition sessionOnce :: session where
  "sessionOnce =
     (case S_setup env0 optsOnce scrollama of
        Inr st \<Rightarrow> S_onStepExit (Function 2) (S_onStepEnter (Function 1) st)
      | Inl e \<Rightarrow> scrollama)"

section \<open>Geometry: results\<close>

lemma crossesAny_iff:
  "crossesAny a b ts \<longleftrightarrow> (\<exists>t \<in> set ts. t = a \<or> t = b \<or> (t < a) \<noteq> (t < b))"
  by (induction ts) auto

lemma effectiveRatio_mkEntry [simp]:
  "effectiveRatio (mkEntry i r) = (if i then r else -1)"
  by (simp add: effectiveRatio_def mkEntry_def)

text \<open>
  The rectangle returned by \<open>computeRectIntersection\<close> holds exactly the points that lie in
  both arguments.
\<close>

lemma computeRectIntersection_exact:
  assumes "computeRectIntersection a b = Some r"
  shows "inside p r \<longleftrightarrow> inside p a \<and> inside p b"
proof -
  from assms have r: "r = \<lparr>rect_top = max (rect_top a) (rect_top b),
      rect_bottom = min (rect_bottom a) (rect_bottom b),
      rect_left = max (rect_left a) (rect_left b),
      rect_right = min (rect_right a) (rect_right b),
      rect_width = min (rect_right a) (rect_right b) - max (rect_left a) (rect_left b),
      rect_height = min (rect_bottom a) (rect_bottom b) - max (rect_top a) (rect_top b)\<rparr>"
    by (simp add: computeRectIntersection_def Let_def split: if_splits)
  show ?thesis unfolding r inside_def by auto
qed

text \<open>
  Claim C3. For every pair of rectangles the intersection has top = max of the tops,
  bottom = min of the bottoms, left = max of the lefts, right = min of the rights,
  width = right - left and height = bottom - top, and it is returned exactly when width and
  height are both non-negative; otherwise there is no intersection. A pair that only touches
  along an edge (zero overlap width) still yields a rectangle, of width zero.
\<close>

theorem computeRectIntersection_correct:
  fixes a b :: rect
  defines "t \<equiv> max (rect_top a) (rect_top b)"
    and "bo \<equiv> min (rect_bottom a) (rect_bottom b)"
    and "l \<equiv> max (rect_left a) (rect_left b)"
    and "r \<equiv> min (rect_right a) (rect_right b)"
  shows "(0 \<le> r - l \<and> 0 \<le> bo - t \<longrightarrow>
            computeRectIntersection a b =
              Some \<lparr>rect_top = t, rect_bottom = bo, rect_left = l, rect_right = r,
                    rect_width = r - l, rect_height = bo - t\<rparr>)
       \<and> (r - l < 0 \<or> bo - t < 0 \<longrightarrow> computeRectIntersection a b = None)
       \<and> (r = l \<and> 0 \<le> bo - t \<longrightarrow>
            (\<exists>x. computeRectIntersection a b = Some x \<and> rect_width x = 0
                 \<and> rect_width x * rect_height x = 0))"
proof -
  have eq: "computeRectIntersection a b =
     (if 0 \<le> r - l \<and> 0 \<le> bo - t
      then Some \<lparr>rect_top = t, rect_bottom = bo, rect_left = l, rect_right = r,
                    rect_width = r - l, rect_height = bo - t\<rparr> else None)"
    unfolding t_def bo_def l_def r_def computeRectIntersection_def Let_def by (rule refl)
  show ?thesis unfolding eq by (simp add: not_le)
qed

theorem computeRectIntersection_correct_witness:
  "computeRectIntersection
      \<lparr>rect_top = 0, rect_bottom = 10, rect_left = 0, rect_right = 10,
       rect_width = 10, rect_height = 10\<rparr>
      \<lparr>rect_top = 5, rect_bottom = 20, rect_left = 10, rect_right = 30,
       rect_width = 20, rect_height = 15\<rparr>
    = Some \<lparr>rect_top = 5, rect_bottom = 10, rect_left = 10, rect_right = 10,
            rect_width = 0, rect_height = 5\<rparr>
   \<and> computeRectIntersection
      \<lparr>rect_top = 0, rect_bottom = 10, rect_left = 0, rect_right = 10,
       rect_width = 10, rect_height = 10\<rparr>
      \<lparr>rect_top = 5, rect_bottom = 20, rect_left = 11, rect_right = 30,
       rect_width = 19, rect_height = 15\<rparr>
    = None"
  using computeRectIntersection_correct
     [of "\<lparr>rect_top = 0, rect_bottom = 10, rect_left = 0, rect_right = 10,
           rect_width = 10, rect_height = 10\<rparr>"
         "\<lparr>rect_top = 5, rect_bottom = 20, rect_left = 10, rect_right = 30,
           rect_width = 20, rect_height = 15\<rparr>"]
    computeRectIntersection_correct
     [of "\<lparr>rect_top = 0, rect_bottom = 10, rect_left = 0, rect_right = 10,
           rect_width = 10, rect_height = 10\<rparr>"
         "\<lparr>rect_top = 5, rect_bottom = 20, rect_left = 11, rect_right = 30,
           rect_width = 19, rect_height = 15\<rparr>"]
  by simp

text \<open>
  Claim C6. Expanding a rectangle by four margins (top, right, bottom, left) moves the top
  and left edges out by subtracting and the bottom and right edges out by adding; width and
  height are recomputed from the new edges. A px margin contributes its value, a percentage
  margin its share of the rectangle's width (left, right) or height (top, bottom).
\<close>

theorem expandRectByRootMargin_correct:
  "expandRectByRootMargin [mt, mr, mb, ml] rect =
     Some \<lparr>rect_top = rect_top rect - contribution mt (rect_height rect),
            rect_bottom = rect_bottom rect + contribution mb (rect_height rect),
            rect_left = rect_left rect - contribution ml (rect_width rect),
            rect_right = rect_right rect + contribution mr (rect_width rect),
            rect_width = (rect_right rect + contribution mr (rect_width rect))
                         - (rect_left rect - contribution ml (rect_width rect)),
            rect_height = (rect_bottom rect + contribution mb (rect_height rect))
                          - (rect_top rect - contribution mt (rect_height rect))\<rparr>"
proof -
  have m: "marginPixels rect m i =
             contribution m (if i mod 2 \<noteq> 0 then rect_width rect else rect_height rect)" for m i
    by (cases "munit m") (simp_all add: marginPixels_def contribution_def)
  have u: "[0..<4] = [0, Suc 0, 2, 3]" by (simp add: upt_rec)
  show ?thesis
    by (simp add: expandRectByRootMargin_def Let_def u m)
qed

theorem expandRectByRootMargin_correct_witness:
  "expandRectByRootMargin
     [\<lparr>mvalue = 10, munit = Px\<rparr>, \<lparr>mvalue = 50, munit = Percent\<rparr>,
      \<lparr>mvalue = -20, munit = Px\<rparr>, \<lparr>mvalue = 25, munit = Percent\<rparr>]
     \<lparr>rect_top = 0, rect_bottom = 100, rect_left = 0, rect_right = 200,
      rect_width = 200, rect_height = 100\<rparr>
   = Some \<lparr>rect_top = -10, rect_bottom = 80, rect_left = -50, rect_right = 300,
           rect_width = 350, rect_height = 90\<rparr>"
  using expandRectByRootMargin_correct
    [of "\<lparr>mvalue = 10, munit = Px\<rparr>" "\<lparr>mvalue = 50, munit = Percent\<rparr>"
        "\<lparr>mvalue = -20, munit = Px\<rparr>" "\<lparr>mvalue = 25, munit = Percent\<rparr>"
        "\<lparr>rect_top = 0, rect_bottom = 100, rect_left = 0, rect_right = 200,
          rect_width = 200, rect_height = 100\<rparr>"]
  by (simp add: contribution_def)

text \<open>
  Claim C2, as stated: a change is reported if and only if some threshold equals one of the
  two effective ratios or separates them. It fails where the two effective ratios are equal
  and sit on a threshold: threshold 0.3, old and new ratio 0.3, both intersecting. The
  threshold equals the effective ratio, yet \<open>_hasCrossedThreshold\<close> leaves at
  "Ignore unchanged ratios" and reports nothing.
\<close>

theorem hasCrossedThreshold_counterexample:
  "\<not> hasCrossedThreshold [3/10] (Some (mkEntry True (3/10))) (mkEntry True (3/10))
   \<and> effectiveRatio (mkEntry True (3/10)) = 3/10"
  by (simp add: hasCrossedThreshold_def)

text \<open>
  Claim C2, amended. With the effective ratio of a report being -1 when it is not
  intersecting and its intersection ratio otherwise, a change is reported if and only if the
  two effective ratios differ and some threshold equals one of them or lies on opposite sides
  of them (threshold < old differs from threshold < new).
\<close>

theorem hasCrossedThreshold_amended:
  "hasCrossedThreshold ths (Some old) new \<longleftrightarrow>
     effectiveRatio old \<noteq> effectiveRatio new \<and>
     (\<exists>t \<in> set ths. t = effectiveRatio old \<or> t = effectiveRatio new \<or>
        (t < effectiveRatio old) \<noteq> (t < effectiveRatio new))"
  by (simp add: hasCrossedThreshold_def Let_def crossesAny_iff)

theorem hasCrossedThreshold_amended_witness:
  "hasCrossedThreshold [3/10] (Some (mkEntry True (2/10))) (mkEntry True (4/10))"
proof -
  have "effectiveRatio (mkEntry True (2/10)) \<noteq> effectiveRatio (mkEntry True (4/10)) \<and>
     (\<exists>t \<in> set [3/10]. t = effectiveRatio (mkEntry True (2/10))
        \<or> t = effectiveRatio (mkEntry True (4/10))
        \<or> (t < effectiveRatio (mkEntry True (2/10))) \<noteq> (t < effectiveRatio (mkEntry True (4/10))))"
    by (intro conjI bexI [of _ "3/10"]) simp_all
  then show ?thesis
    by (rule hasCrossedThreshold_amended [THEN iffD2])
qed

text \<open>
  The three cases the specification names: 0.2 to 0.4 and 0.4 to 0.2 across threshold 0.3 are
  reported, 0.2 to 0.25 is not.
\<close>

lemma hasCrossedThreshold_examples:
  "hasCrossedThreshold [3/10] (Some (mkEntry True (2/10))) (mkEntry True (4/10))"
  "hasCrossedThreshold [3/10] (Some (mkEntry True (4/10))) (mkEntry True (2/10))"
  "\<not> hasCrossedThreshold [3/10] (Some (mkEntry True (2/10))) (mkEntry True (25/100))"
  by (simp_all add: hasCrossedThreshold_def)

section \<open>Threshold sets: results\<close>

lemma andThen_simps [simp]:
  "andThen (Inl e) f = Inl e"
  "andThen (Inr x) f = f x"
  by (simp_all add: andThen_def)

lemma filterThresholds_error:
  "(\<exists>v \<in> set a. \<not> validThreshold v) \<Longrightarrow> filterThresholds prev a = Inl ThresholdError"
proof (induction a arbitrary: prev)
  case Nil then show ?case by simp
next
  case (Cons t rest)
  show ?case
  proof (cases "validThreshold t")
    case False
    then show ?thesis
      by (cases t rule: validThreshold.cases) (auto simp: not_le)
  next
    case True
    then obtain x where t: "t = Number (Num x)" "0 \<le> x" "x \<le> 1"
      by (cases t rule: validThreshold.cases) auto
    from True Cons.prems have "\<exists>v \<in> set rest. \<not> validThreshold v" by auto
    then have "filterThresholds (Some t) rest = Inl ThresholdError" by (rule Cons.IH)
    with t show ?thesis by (simp add: not_less)
  qed
qed

lemma set_sort_default: "set (sort_default ts a) = set a"
  by (auto simp: sort_default_def)

lemma initThresholds_invalid_element:
  "\<exists>v \<in> set a. \<not> validThreshold v \<Longrightarrow> initThresholds ts (Array a) = Inl ThresholdError"
  by (simp add: initThresholds_def filterThresholds_error set_sort_default)

lemma validThreshold_cases:
  assumes "validThreshold v"
  obtains x where "v = Number (Num x)" "0 \<le> x" "x \<le> 1"
  using assms by (cases v rule: validThreshold.cases) auto

lemma filterThresholds_sorted:
  assumes "\<forall>v \<in> set b. validThreshold v" and "sorted (map numOf b)"
    and "\<forall>p. prev = Some p \<longrightarrow> validThreshold p \<and> (\<forall>v \<in> set b. numOf p \<le> numOf v)"
  shows "\<exists>ys. filterThresholds prev b = Inr ys \<and> sorted ys \<and> distinct ys
           \<and> set ys \<subseteq> numOf ` set b
           \<and> numOf ` set b \<subseteq> set ys \<union> (case prev of None \<Rightarrow> {} | Some p \<Rightarrow> {numOf p})
           \<and> (\<forall>p. prev = Some p \<longrightarrow> numOf p \<notin> set ys)"
  using assms
proof (induction b arbitrary: prev)
  case Nil
  then show ?case by simp
next
  case (Cons t rest)
  from Cons.prems(1) have "validThreshold t" by simp
  then obtain x where t: "t = Number (Num x)" "0 \<le> x" "x \<le> 1"
    by (rule validThreshold_cases)
  have le: "\<forall>v \<in> set rest. x \<le> numOf v" using Cons.prems(2) t by simp
  have p': "\<forall>p. Some t = Some p \<longrightarrow> validThreshold p \<and> (\<forall>v \<in> set rest. numOf p \<le> numOf v)"
    using le t by simp
  from Cons.prems have "\<forall>v \<in> set rest. validThreshold v" "sorted (map numOf rest)" by simp_all
  from Cons.IH [OF this p'] obtain ys where
    f: "filterThresholds (Some t) rest = Inr ys" and s: "sorted ys" and d: "distinct ys" and
    sub: "set ys \<subseteq> numOf ` set rest" and sup: "numOf ` set rest \<subseteq> set ys \<union> {x}" and
    nx: "x \<notin> set ys"
    using t by auto
  have ge: "\<forall>y \<in> set ys. x \<le> y" using sub le by auto
  have gt: "\<forall>y \<in> set ys. x < y"
  proof
    fix y assume "y \<in> set ys"
    with ge nx have "x \<le> y" "x \<noteq> y" by auto
    then show "x < y" by simp
  qed
  show ?case
  proof (cases "Some t \<noteq> prev")
    case True
    have r: "filterThresholds prev (t # rest) = Inr (x # ys)"
      using t f True by (simp add: not_less)
    have np: "\<forall>p. prev = Some p \<longrightarrow> numOf p \<notin> set (x # ys)"
    proof (intro allI impI)
      fix p assume pp: "prev = Some p"
      with Cons.prems(3) have vp: "validThreshold p" and pl: "numOf p \<le> x"
        using t by auto
      from vp obtain px where px: "p = Number (Num px)" by (rule validThreshold_cases)
      from True pp have "t \<noteq> p" by simp
      with t px have "numOf p \<noteq> x" by simp
      moreover have "numOf p \<notin> set ys" using gt pl by force
      ultimately show "numOf p \<notin> set (x # ys)" by simp
    qed
    have "sorted (x # ys)" using s ge by simp
    moreover have "distinct (x # ys)" using d nx by simp
    moreover have "set (x # ys) \<subseteq> numOf ` set (t # rest)" using sub t by auto
    moreover have "numOf ` set (t # rest)
        \<subseteq> set (x # ys) \<union> (case prev of None \<Rightarrow> {} | Some p \<Rightarrow> {numOf p})"
      using sup t by auto
    ultimately show ?thesis using r np by blast
  next
    case False
    then have pv: "prev = Some t" by simp
    have r: "filterThresholds prev (t # rest) = Inr ys"
      using t f False by (simp add: not_less)
    have "numOf ` set (t # rest)
        \<subseteq> set ys \<union> (case prev of None \<Rightarrow> {} | Some p \<Rightarrow> {numOf p})"
      using sup t pv by auto
    moreover have "set ys \<subseteq> numOf ` set (t # rest)" using sub by auto
    moreover have "\<forall>p. prev = Some p \<longrightarrow> numOf p \<notin> set ys" using pv nx t by simp
    ultimately show ?thesis using r s d by blast
  qed
qed

text \<open>
  Whenever the string forms of the supplied numbers are ordered as the numbers are, the
  result of \<open>_initThresholds\<close> on an array of valid thresholds is increasing, free of
  duplicates and holds exactly the supplied values.
\<close>

lemma initThresholds_sorted_if_monotone:
  assumes valid: "\<forall>v \<in> set a. validThreshold v"
    and mono: "\<forall>x y. Number (Num x) \<in> set a \<and> Number (Num y) \<in> set a \<and> x < y \<longrightarrow> ts x < ts y"
  shows "\<exists>ys. initThresholds ts (Array a) = Inr ys \<and> sorted ys \<and> distinct ys
           \<and> set ys = numOf ` set a"
proof -
  have nu: "filter (\<lambda>v. v \<noteq> Undefined) a = a" "filter (\<lambda>v. v = Undefined) a = []"
    using valid by (auto simp: filter_id_conv filter_empty_conv)
  let ?f = "toString ts"
  let ?b = "sort_key ?f a"
  have sd: "sort_default ts a = ?b" by (simp add: sort_default_def nu)
  have vb: "\<forall>v \<in> set ?b. validThreshold v" using valid by simp
  have "sorted (map ?f ?b)" by (rule sorted_sort_key)
  then have "sorted_wrt (\<lambda>u v. ?f u \<le> ?f v) ?b" by (simp add: sorted_map)
  then have "sorted_wrt (\<lambda>u v. numOf u \<le> numOf v) ?b"
  proof (rule sorted_wrt_mono_rel [rotated])
    fix u v assume u: "u \<in> set ?b" and v: "v \<in> set ?b" and le: "?f u \<le> ?f v"
    from u valid obtain x where x: "u = Number (Num x)" by (auto elim: validThreshold_cases)
    from v valid obtain y where y: "v = Number (Num y)" by (auto elim: validThreshold_cases)
    show "numOf u \<le> numOf v"
    proof (rule ccontr)
      assume "\<not> numOf u \<le> numOf v"
      then have "y < x" using x y by simp
      moreover have "Number (Num x) \<in> set a" "Number (Num y) \<in> set a" using u v x y by simp_all
      ultimately have "ts y < ts x" using mono by blast
      with le x y show False by simp
    qed
  qed
  then have sb: "sorted (map numOf ?b)" by (simp add: sorted_map)
  have "\<forall>p. (None :: jsval option) = Some p \<longrightarrow>
           validThreshold p \<and> (\<forall>v \<in> set ?b. numOf p \<le> numOf v)" by simp
  from filterThresholds_sorted [OF vb sb this] obtain ys where
    "filterThresholds None ?b = Inr ys" "sorted ys" "distinct ys"
    "set ys \<subseteq> numOf ` set ?b" "numOf ` set ?b \<subseteq> set ys"
    by auto
  then show ?thesis by (auto simp: initThresholds_def sd)
qed

text \<open>
  Claim C7. Threshold initialisation should return the valid thresholds in increasing numeric
  order and raise on a \<open>NaN\<close>. \<open>threshold.sort()\<close> has no comparator, so it orders
  the numbers by their string forms: with "1" for 1 and "1e-7" for 0.0000001, as ECMAScript
  prints them, the already sorted input [1e-7, 1] comes back as [1, 1e-7], which is not
  increasing. A lone \<open>NaN\<close> is falsy, so \<open>opt_threshold || [0]\<close> replaces it by the
  default and nothing is raised.
\<close>

theorem initThresholds_not_sorted:
  assumes "ts 1 = ''1''" and "ts (1 / 10 ^ 7) = ''1e-7''"
  shows "initThresholds ts (Array [Number (Num (1 / 10 ^ 7)), Number (Num 1)]) = Inr [1, 1 / 10 ^ 7]
       \<and> (1 / 10 ^ 7 :: real) < 1
       \<and> initThresholds ts (Single (Number NaN)) = Inr [0]"
  using assms by (simp add: initThresholds_def sort_default_def)

theorem initThresholds_not_sorted_witness:
  "initThresholds (\<lambda>x. if x = 1 then ''1'' else ''1e-7'')
      (Array [Number (Num (1 / 10 ^ 7)), Number (Num 1)]) = Inr [1, 1 / 10 ^ 7]"
  using initThresholds_not_sorted [of "\<lambda>x. if x = 1 then ''1'' else ''1e-7''"]
  by simp

section \<open>Double precision: results\<close>

text \<open>Evaluation of the exponent search at a numeral bound.\<close>

lemma expDown_numeral:
  "expDown (numeral k) x = (if x < 1 then expDown (pred_numeral k) (2 * x) - 1 else 0)"
  by (simp add: numeral_eq_Suc)

lemma expUp_numeral:
  "expUp (numeral k) x = (if 2 \<le> x then expUp (pred_numeral k) (x / 2) + 1 else 0)"
  by (simp add: numeral_eq_Suc)

text \<open>What the evaluation of a rounding at a given number unfolds.\<close>

lemmas double_eval = roundDouble_def exponent_def roundHalfEven_def Let_def
  expDown_numeral expUp_numeral


lemma expDown_ge_1: "1 \<le> x \<Longrightarrow> expDown n x = 0"
  by (cases n) simp_all

lemma expDown_spec:
  "x < 1 \<Longrightarrow> 1 / 2 ^ n \<le> x \<Longrightarrow>
     2 powi (expDown n x) \<le> x \<and> x < 2 * 2 powi (expDown n x)"
proof (induction n arbitrary: x)
  case 0
  then show ?case by simp
next
  case (Suc n)
  show ?case
  proof (cases "2 * x < 1")
    case True
    from Suc.prems(2) have "1 / 2 ^ n \<le> 2 * x" by (simp add: field_simps)
    from Suc.IH [OF True this]
    have a: "2 powi (expDown n (2 * x)) \<le> 2 * x" "2 * x < 2 * 2 powi (expDown n (2 * x))"
      by simp_all
    have "(2::real) powi (expDown n (2 * x) - 1) = 2 powi (expDown n (2 * x)) / 2"
      by (simp add: power_int_diff)
    with a Suc.prems(1) show ?thesis by simp
  next
    case False
    then have "expDown n (2 * x) = 0" by (simp add: expDown_ge_1)
    with False Suc.prems(1) show ?thesis by (simp add: power_int_minus)
  qed
qed

lemma expDown_sub:
  "0 < x \<Longrightarrow> x < 1 / 2 ^ n \<Longrightarrow> expDown n x = - int n"
proof (induction n arbitrary: x)
  case 0
  then show ?case by simp
next
  case (Suc n)
  have "(1::real) \<le> 2 ^ Suc n" by (rule one_le_power) simp
  then have "1 / (2::real) ^ Suc n \<le> 1" by simp
  with Suc.prems have x1: "x < 1" by linarith
  from Suc.prems(2) have "2 * x < 1 / 2 ^ n" by (simp add: field_simps)
  with Suc.IH [of "2 * x"] Suc.prems(1) have "expDown n (2 * x) = - int n" by simp
  with x1 show ?case by simp
qed

lemma expDown_le_0: "expDown n x \<le> 0"
proof (induction n arbitrary: x)
  case 0
  show ?case by simp
next
  case (Suc n)
  from Suc [of "2 * x"] show ?case by simp
qed

lemma expUp_spec:
  "1 \<le> x \<Longrightarrow> x < 2 * 2 ^ n \<Longrightarrow>
     2 powi (expUp n x) \<le> x \<and> x < 2 * 2 powi (expUp n x)"
proof (induction n arbitrary: x)
  case 0
  then show ?case by simp
next
  case (Suc n)
  show ?case
  proof (cases "2 \<le> x")
    case True
    from Suc.prems(2) have "x / 2 < 2 * 2 ^ n" by simp
    moreover from True have "1 \<le> x / 2" by simp
    ultimately have a: "2 powi (expUp n (x / 2)) \<le> x / 2" "x / 2 < 2 * 2 powi (expUp n (x / 2))"
      using Suc.IH [of "x / 2"] by simp_all
    have "(2::real) powi (expUp n (x / 2) + 1) = 2 * 2 powi (expUp n (x / 2))"
      by (simp add: power_int_add)
    with a True show ?thesis by simp
  next
    case False
    with Suc.prems(1) show ?thesis by simp
  qed
qed

lemma exponent_spec:
  assumes "1 / 2 ^ 1022 \<le> x" and "x < 2 ^ 1024"
  shows "2 powi (exponent x) \<le> x" and "x < 2 * 2 powi (exponent x)"
proof -
  have "2 powi (exponent x) \<le> x \<and> x < 2 * 2 powi (exponent x)"
  proof (cases "x < 1")
    case True
    from expDown_spec [OF True assms(1)] True show ?thesis by (simp add: exponent_def)
  next
    case False
    then have x1: "1 \<le> x" by simp
    have "(2::real) ^ 1024 = 2 * 2 ^ 1023" by simp
    with assms(2) have "x < 2 * 2 ^ 1023" by simp
    from expUp_spec [OF x1 this] False show ?thesis by (simp add: exponent_def)
  qed
  then show "2 powi (exponent x) \<le> x" and "x < 2 * 2 powi (exponent x)" by simp_all
qed

lemma exponent_subnormal:
  assumes "0 < x" and "x < 1 / 2 ^ 1022"
  shows "exponent x = - 1022"
proof -
  have "(1::real) \<le> 2 ^ 1022" by (rule one_le_power) simp
  then have "1 / (2::real) ^ 1022 \<le> 1" by simp
  with assms have "x < 1" by linarith
  with expDown_sub [OF assms] show ?thesis by (simp add: exponent_def)
qed

lemma roundHalfEven_error: "\<bar>of_int (roundHalfEven x) - x\<bar> \<le> 1 / 2"
  unfolding roundHalfEven_def Let_def by (auto simp: abs_if) linarith+

lemma roundHalfEven_le: "x \<le> of_int k \<Longrightarrow> roundHalfEven x \<le> k"
  unfolding roundHalfEven_def Let_def by (auto simp: abs_if) linarith+

lemma roundHalfEven_ge: "of_int k \<le> x \<Longrightarrow> k \<le> roundHalfEven x"
  unfolding roundHalfEven_def Let_def by (auto simp: abs_if) linarith+

lemma roundHalfEven_pos:
  assumes "1 / 2 < x"
  shows "1 \<le> roundHalfEven x"
proof (cases "1 \<le> \<lfloor>x\<rfloor>")
  case True
  then show ?thesis by (simp add: roundHalfEven_def Let_def)
next
  case False
  moreover have "0 \<le> \<lfloor>x\<rfloor>" using assms by simp
  ultimately have "\<lfloor>x\<rfloor> = 0" by linarith
  with assms show ?thesis by (simp add: roundHalfEven_def Let_def)
qed

lemma roundDouble_zero [simp]: "roundDouble 0 = 0"
  by (simp add: roundDouble_def roundHalfEven_def)


lemma roundDouble_error:
  assumes "1 / 2 ^ 1022 \<le> x" and "x < 2 ^ 1024"
  shows "\<bar>roundDouble x - x\<bar> \<le> x / 2 ^ 53"
proof -
  have x0: "0 < x" using assms(1) by (rule less_le_trans [rotated]) simp
  define u :: real where "u = 2 powi (exponent x - 52)"
  have u0: "0 < u" by (simp add: u_def)
  have ue: "u = 2 powi (exponent x) / 2 ^ 52" by (simp add: u_def power_int_diff)
  have r: "roundDouble x = of_int (roundHalfEven (x / u)) * u"
    using x0 by (simp add: roundDouble_def Let_def u_def)
  have "of_int (roundHalfEven (x / u)) * u - x = (of_int (roundHalfEven (x / u)) - x / u) * u"
    using u0 by (simp add: field_simps)
  then have "\<bar>of_int (roundHalfEven (x / u)) * u - x\<bar>
          = \<bar>of_int (roundHalfEven (x / u)) - x / u\<bar> * u"
    using u0 by (simp add: abs_mult)
  also have "\<dots> \<le> 1 / 2 * u"
    using u0 by (intro mult_right_mono roundHalfEven_error) simp
  also have "\<dots> = 2 powi (exponent x) / 2 ^ 53" by (simp add: ue)
  also have "\<dots> \<le> x / 2 ^ 53"
    using exponent_spec(1) [OF assms] by (simp add: divide_right_mono)
  finally show ?thesis by (simp add: r)
qed

lemma roundDouble_bounds:
  assumes "1 / 2 ^ 1022 \<le> x" and "x < 2 ^ 1024"
  shows "(1 - 1 / 2 ^ 53) * x \<le> roundDouble x" and "roundDouble x \<le> (1 + 1 / 2 ^ 53) * x"
proof -
  from roundDouble_error [OF assms]
  have "x - x / 2 ^ 53 \<le> roundDouble x" "roundDouble x \<le> x + x / 2 ^ 53"
    by linarith+
  then show "(1 - 1 / 2 ^ 53) * x \<le> roundDouble x" "roundDouble x \<le> (1 + 1 / 2 ^ 53) * x"
    by (simp_all add: algebra_simps)
qed

lemma roundDouble_pos:
  assumes "1 / 2 ^ 1075 < x" and "x < 2 ^ 1024"
  shows "0 < roundDouble x"
proof (cases "x < 1 / 2 ^ 1022")
  case True
  have x0: "0 < x" using assms(1) by (rule le_less_trans [rotated]) simp
  from exponent_subnormal [OF x0 True] x0
  have r: "roundDouble x = of_int (roundHalfEven (x / 2 powi (- 1074))) * 2 powi (- 1074)"
    by (simp add: roundDouble_def Let_def)
  have "x / 2 powi (- 1074) = x * 2 ^ 1074" by (simp add: power_int_minus field_simps)
  moreover have "1 / 2 < x * 2 ^ 1074"
  proof -
    have "1 / 2 = (1 / 2 ^ 1075) * (2::real) ^ 1074" by simp
    also have "\<dots> < x * 2 ^ 1074" using assms(1) by (intro mult_strict_right_mono) simp_all
    finally show ?thesis .
  qed
  ultimately have "1 \<le> roundHalfEven (x / 2 powi (- 1074))"
    by (simp add: roundHalfEven_pos)
  then have "0 < real_of_int (roundHalfEven (x / 2 powi (- 1074)))" by simp
  then show ?thesis unfolding r by (intro mult_pos_pos) simp_all
next
  case False
  then have n: "1 / 2 ^ 1022 \<le> x" by simp
  then have x0: "0 < x" by (rule less_le_trans [rotated]) simp
  have "0 < (1 - 1 / 2 ^ 53) * x" using x0 by (intro mult_pos_pos) simp_all
  with roundDouble_bounds(1) [OF n assms(2)] show ?thesis by linarith
qed

lemma exponent_le_52:
  assumes "0 < x" and "x < 2 ^ 53"
  shows "exponent x \<le> 52"
proof (cases "x < 1")
  case True
  then have "exponent x \<le> 0" by (simp add: exponent_def expDown_le_0)
  then show ?thesis by simp
next
  case False
  have "(1::real) / 2 ^ 1022 \<le> 1" by simp
  with False have a: "1 / 2 ^ 1022 \<le> x" by linarith
  have "(2::real) ^ 53 < 2 ^ 1024" by simp
  with assms(2) have b: "x < 2 ^ 1024" by linarith
  show ?thesis
  proof (rule ccontr)
    assume "\<not> exponent x \<le> 52"
    then have "53 \<le> exponent x" by simp
    then have "(2::real) powi 53 \<le> 2 powi (exponent x)" by (intro power_int_increasing) simp_all
    with exponent_spec(1) [OF a b] assms(2) show False by simp
  qed
qed

lemma roundDouble_scaled:
  assumes "0 < x" and "x < 2 ^ 53"
  obtains k :: nat and u :: real where "0 < u" "u * 2 ^ k = 1"
    "roundDouble x = of_int (roundHalfEven (x * 2 ^ k)) * u"
proof -
  define k where "k = nat (52 - exponent x)"
  define u :: real where "u = 2 powi (exponent x - 52)"
  from exponent_le_52 [OF assms] have ke: "int k = 52 - exponent x" by (simp add: k_def)
  have u0: "0 < u" by (simp add: u_def)
  have "u * 2 ^ k = 2 powi (exponent x - 52) * 2 powi (int k)" by (simp add: u_def)
  also have "\<dots> = 2 powi (exponent x - 52 + int k)" by (simp add: power_int_add)
  also have "\<dots> = 1" by (simp add: ke)
  finally have uk: "u * 2 ^ k = 1" .
  then have iu: "1 / u = 2 ^ k" using u0 by (simp add: field_simps)
  have "x / u = x * (1 / u)" by simp
  also have "\<dots> = x * 2 ^ k" by (simp only: iu)
  finally have "x / u = x * 2 ^ k" .
  then have "roundDouble x = of_int (roundHalfEven (x * 2 ^ k)) * u"
    using assms(1) by (simp add: roundDouble_def Let_def u_def)
  with u0 uk show ?thesis by (rule that)
qed

lemma roundDouble_le_int:
  assumes "0 < x" and "x \<le> of_int m" and "of_int m < (2::real) ^ 53"
  shows "roundDouble x \<le> of_int m"
proof -
  from assms have "x < 2 ^ 53" by linarith
  from roundDouble_scaled [OF assms(1) this] obtain k :: nat and u :: real where
    u: "0 < u" "u * 2 ^ k = 1" and r: "roundDouble x = of_int (roundHalfEven (x * 2 ^ k)) * u"
    by blast
  have "x * 2 ^ k \<le> of_int m * 2 ^ k" using assms(2) by (intro mult_right_mono) simp_all
  then have "x * 2 ^ k \<le> of_int (m * 2 ^ k)" by simp
  then have "roundHalfEven (x * 2 ^ k) \<le> m * 2 ^ k" by (rule roundHalfEven_le)
  then have "real_of_int (roundHalfEven (x * 2 ^ k)) \<le> of_int (m * 2 ^ k)"
    by (simp only: of_int_le_iff)
  then have "real_of_int (roundHalfEven (x * 2 ^ k)) * u \<le> of_int (m * 2 ^ k) * u"
    using u(1) by (intro mult_right_mono) simp_all
  also have "of_int (m * 2 ^ k) * u = of_int m * (u * 2 ^ k)" by (simp add: mult_ac)
  also have "\<dots> = of_int m" by (simp add: u(2))
  finally show ?thesis by (simp add: r)
qed

lemma roundDouble_ge_int:
  assumes "0 < x" and "of_int m \<le> x" and "x < (2::real) ^ 53"
  shows "of_int m \<le> roundDouble x"
proof -
  from roundDouble_scaled [OF assms(1,3)] obtain k :: nat and u :: real where
    u: "0 < u" "u * 2 ^ k = 1" and r: "roundDouble x = of_int (roundHalfEven (x * 2 ^ k)) * u"
    by blast
  have "of_int m * 2 ^ k \<le> x * 2 ^ k" using assms(2) by (intro mult_right_mono) simp_all
  then have "of_int (m * 2 ^ k) \<le> x * 2 ^ k" by simp
  then have "m * 2 ^ k \<le> roundHalfEven (x * 2 ^ k)" by (rule roundHalfEven_ge)
  then have "real_of_int (m * 2 ^ k) \<le> of_int (roundHalfEven (x * 2 ^ k))"
    by (simp only: of_int_le_iff)
  then have a: "of_int (m * 2 ^ k) * u \<le> real_of_int (roundHalfEven (x * 2 ^ k)) * u"
    using u(1) by (intro mult_right_mono) simp_all
  have "of_int m = of_int m * (u * 2 ^ k)" by (simp add: u(2))
  also have "\<dots> = of_int (m * 2 ^ k) * u" by (simp add: mult_ac)
  also note a
  finally show ?thesis by (simp add: r)
qed

section \<open>Progress thresholds: results\<close>

text \<open>
  With count n between 1 and the largest array length, the ratio and the products stay in the
  normal range of the doubles, where a rounding changes a value by at most one part in 2 to
  the power 53.
\<close>

lemma ratio_bounds:
  assumes "1 \<le> n" and "n \<le> 4294967295"
  defines "r \<equiv> roundDouble (1 / real n)"
  shows "(1 - 1 / 2 ^ 53) / real n \<le> r" and "r \<le> (1 + 1 / 2 ^ 53) / real n"
    and "1 / 2 ^ 33 \<le> r" and "r * real n \<le> 1 + 1 / 2 ^ 53"
proof -
  have n0: "0 < real n" using assms(1) by simp
  have n1: "real n \<le> 2 ^ 32" using assms(2) by simp
  have lo: "1 / 2 ^ 32 \<le> 1 / real n" using n0 n1 by (simp add: field_simps)
  have "(1::real) / 2 ^ 1022 \<le> 1 / 2 ^ 32" by simp
  with lo have a: "1 / 2 ^ 1022 \<le> 1 / real n" by linarith
  have "1 / real n \<le> 1" using assms(1) by simp
  moreover have "(1::real) < 2 ^ 1024" by simp
  ultimately have b: "1 / real n < 2 ^ 1024" by linarith
  from roundDouble_bounds [OF a b]
  show l: "(1 - 1 / 2 ^ 53) / real n \<le> r" and h: "r \<le> (1 + 1 / 2 ^ 53) / real n"
    by (simp_all add: r_def)
  have "(1 - 1 / 2 ^ 53) * (1 / 2 ^ 32) \<le> (1 - 1 / 2 ^ 53) * (1 / real n)"
    using lo by (intro mult_left_mono) simp_all
  moreover have "(1::real) / 2 ^ 33 \<le> (1 - 1 / 2 ^ 53) * (1 / 2 ^ 32)" by simp
  ultimately show "1 / 2 ^ 33 \<le> r" using l by simp
  from h have "r * real n \<le> (1 + 1 / 2 ^ 53) / real n * real n"
    using n0 by (intro mult_right_mono) simp_all
  then show "r * real n \<le> 1 + 1 / 2 ^ 53" using n0 by simp
qed

lemma product_bounds:
  assumes "1 \<le> n" and "n \<le> 4294967295" and "i \<le> n"
  defines "r \<equiv> roundDouble (1 / real n)"
  shows "(1 - 1 / 2 ^ 53) * (real i * r) \<le> roundDouble (real i * r)"
    and "roundDouble (real i * r) \<le> (1 + 1 / 2 ^ 53) * (real i * r)"
proof -
  have "(1 - 1 / 2 ^ 53) * (real i * r) \<le> roundDouble (real i * r)
      \<and> roundDouble (real i * r) \<le> (1 + 1 / 2 ^ 53) * (real i * r)"
  proof (cases "i = 0")
    case True
    then show ?thesis by simp
  next
    case False
    then have i1: "1 \<le> real i" by simp
    note rb = ratio_bounds [OF assms(1,2), folded r_def]
    have r0: "0 < r" using rb(3) by (rule less_le_trans [rotated]) simp
    have "r \<le> real i * r" using i1 r0 by simp
    moreover have "(1::real) / 2 ^ 1022 \<le> 1 / 2 ^ 33" by simp
    ultimately have a: "1 / 2 ^ 1022 \<le> real i * r" using rb(3) by linarith
    have "real i * r \<le> real n * r" using assms(3) r0 by (intro mult_right_mono) simp_all
    also have "\<dots> \<le> 1 + 1 / 2 ^ 53" using rb(4) by (simp add: mult.commute)
    also have "\<dots> < 2 ^ 1024" by simp
    finally have b: "real i * r < 2 ^ 1024" .
    from roundDouble_bounds [OF a b] show ?thesis by simp
  qed
  then show "(1 - 1 / 2 ^ 53) * (real i * r) \<le> roundDouble (real i * r)"
    and "roundDouble (real i * r) \<le> (1 + 1 / 2 ^ 53) * (real i * r)" by simp_all
qed

lemma product_accuracy:
  assumes "1 \<le> n" and "n \<le> 4294967295" and "i \<le> n"
  shows "\<bar>roundDouble (real i * roundDouble (1 / real n)) - real i / real n\<bar>
           \<le> (real i / real n) / 2 ^ 51"
proof -
  define r where "r = roundDouble (1 / real n)"
  define a where "a = real i / real n"
  define u :: real where "u = 1 / 2 ^ 53"
  define t where "t = roundDouble (real i * r)"
  have n0: "0 < real n" using assms(1) by simp
  have a0: "0 \<le> a" by (simp add: a_def)
  have u0: "0 \<le> u" "u \<le> 1" by (simp_all add: u_def)
  note rb = ratio_bounds [OF assms(1,2), folded r_def u_def]
  note pb = product_bounds [OF assms, folded r_def u_def]
  have ir_lo: "(1 - u) * a \<le> real i * r"
  proof -
    have "real i * ((1 - u) / real n) \<le> real i * r" using rb(1) by (intro mult_left_mono) simp_all
    then show ?thesis by (simp add: a_def mult_ac)
  qed
  have ir_hi: "real i * r \<le> (1 + u) * a"
  proof -
    have "real i * r \<le> real i * ((1 + u) / real n)" using rb(2) by (intro mult_left_mono) simp_all
    then show ?thesis by (simp add: a_def mult_ac)
  qed
  have lo: "(1 - u) * ((1 - u) * a) \<le> t"
  proof -
    have "(1 - u) * ((1 - u) * a) \<le> (1 - u) * (real i * r)"
      using ir_lo u0 by (intro mult_left_mono) simp_all
    with pb(1) show ?thesis unfolding t_def by linarith
  qed
  have hi: "t \<le> (1 + u) * ((1 + u) * a)"
  proof -
    have "(1 + u) * (real i * r) \<le> (1 + u) * ((1 + u) * a)"
      using ir_hi u0 by (intro mult_left_mono) simp_all
    with pb(2) show ?thesis unfolding t_def by linarith
  qed
  have ua: "0 \<le> u * a" "u * (u * a) \<le> u * a" "0 \<le> u * (u * a)"
    using u0 a0 by (simp_all add: mult_left_le_one_le)
  have e1: "(1 - u) * ((1 - u) * a) = a - 2 * (u * a) + u * (u * a)" by (simp add: algebra_simps)
  have e2: "(1 + u) * ((1 + u) * a) = a + 2 * (u * a) + u * (u * a)" by (simp add: algebra_simps)
  from lo hi ua have "\<bar>t - a\<bar> \<le> 4 * (u * a)" unfolding e1 e2 by linarith
  also have "4 * (u * a) = a / 2 ^ 51" by (simp add: u_def)
  finally show ?thesis unfolding t_def a_def r_def .
qed

lemma product_less_one:
  assumes "1 \<le> n" and "n \<le> 4294967295" and "i < n"
  shows "roundDouble (real i * roundDouble (1 / real n)) < 1"
proof -
  define a where "a = real i / real n"
  have n0: "0 < real n" using assms(1) by simp
  have "real i \<le> real n - 1" using assms(3) by (simp add: of_nat_diff)
  then have "a \<le> (real n - 1) / real n" unfolding a_def by (rule divide_right_mono) simp
  also have "\<dots> = 1 - 1 / real n" using n0 by (simp add: field_simps)
  also have "\<dots> \<le> 1 - 1 / 2 ^ 32"
  proof -
    have "real n \<le> 2 ^ 32" using assms(2) by simp
    then have "1 / 2 ^ 32 \<le> 1 / real n" using n0 by (simp add: field_simps)
    then show ?thesis by simp
  qed
  finally have a1: "a \<le> 1 - 1 / 2 ^ 32" .
  have a0: "0 \<le> a" by (simp add: a_def)
  from product_accuracy [OF assms(1,2), of i] assms(3)
  have "roundDouble (real i * roundDouble (1 / real n)) \<le> a + a / 2 ^ 51"
    unfolding a_def by simp
  also have "\<dots> = a * (1 + 1 / 2 ^ 51)" by (simp add: algebra_simps)
  also have "\<dots> \<le> (1 - 1 / 2 ^ 32) * (1 + 1 / 2 ^ 51)"
    using a1 by (intro mult_right_mono) simp_all
  also have "\<dots> < 1" by simp
  finally show ?thesis .
qed

lemma product_nonneg:
  assumes "1 \<le> n" and "n \<le> 4294967295" and "i \<le> n"
  shows "0 \<le> roundDouble (real i * roundDouble (1 / real n))"
proof -
  have "0 < roundDouble (1 / real n)"
    using ratio_bounds(3) [OF assms(1,2)] by (rule less_le_trans [rotated]) simp
  then have "0 \<le> (1 - 1 / 2 ^ 53) * (real i * roundDouble (1 / real n))"
    by (intro mult_nonneg_nonneg) simp_all
  with product_bounds(1) [OF assms] show ?thesis by linarith
qed

lemma product_strict_mono:
  assumes "1 \<le> n" and "n \<le> 4294967295" and "Suc i \<le> n"
  shows "roundDouble (real i * roundDouble (1 / real n))
           < roundDouble (real (Suc i) * roundDouble (1 / real n))"
proof -
  define r where "r = roundDouble (1 / real n)"
  define u :: real where "u = 1 / 2 ^ 53"
  have r0: "0 < r"
    using ratio_bounds(3) [OF assms(1,2)] unfolding r_def by (rule less_le_trans [rotated]) simp
  from assms(3) have i: "i \<le> n" by simp
  note lo = product_bounds(1) [OF assms, folded r_def u_def]
  note hi = product_bounds(2) [OF assms(1,2) i, folded r_def u_def]
  have "real i \<le> 2 ^ 32" using i assms(2) by simp
  then have "u * (2 * real i + 1) \<le> u * (2 * 2 ^ 32 + 1)"
    by (intro mult_left_mono) (simp_all add: u_def)
  also have "\<dots> < 1" by (simp add: u_def)
  finally have "0 < 1 - u * (2 * real i + 1)" by simp
  with r0 have "0 < r * (1 - u * (2 * real i + 1))" by (rule mult_pos_pos)
  also have "r * (1 - u * (2 * real i + 1)) = (1 - u) * (real (Suc i) * r) - (1 + u) * (real i * r)"
    by (simp add: algebra_simps)
  finally have "(1 + u) * (real i * r) < (1 - u) * (real (Suc i) * r)" by simp
  with lo hi show ?thesis unfolding r_def by linarith
qed

lemma product_spacing:
  assumes "1 \<le> n" and "n \<le> 4294967295" and "Suc i \<le> n"
  shows "\<bar>roundDouble (real (Suc i) * roundDouble (1 / real n))
           - roundDouble (real i * roundDouble (1 / real n)) - 1 / real n\<bar> \<le> 1 / 2 ^ 50"
proof -
  have n0: "0 < real n" using assms(1) by simp
  from assms(3) have i: "i \<le> n" by simp
  have a: "real (Suc i) / real n \<le> 1" using assms(3) n0 by simp
  have b: "real i / real n \<le> 1" using i n0 by simp
  have e: "real (Suc i) / real n - real i / real n = 1 / real n"
    by (simp add: diff_divide_distrib [symmetric])
  have "real (Suc i) / real n / 2 ^ 51 \<le> 1 / 2 ^ 51"
    using a by (rule divide_right_mono) simp
  with product_accuracy [OF assms]
  have 1: "\<bar>roundDouble (real (Suc i) * roundDouble (1 / real n)) - real (Suc i) / real n\<bar>
             \<le> 1 / 2 ^ 51"
    by linarith
  have "real i / real n / 2 ^ 51 \<le> 1 / 2 ^ 51"
    using b by (rule divide_right_mono) simp
  with product_accuracy [OF assms(1,2) i]
  have 2: "\<bar>roundDouble (real i * roundDouble (1 / real n)) - real i / real n\<bar> \<le> 1 / 2 ^ 51"
    by linarith
  have "(1::real) / 2 ^ 51 + 1 / 2 ^ 51 = 1 / 2 ^ 50" by simp
  with 1 2 e show ?thesis by linarith
qed

lemma createThresholdLoop_eq:
  "createThresholdLoop i count ratio t
     = t @ map (\<lambda>k. roundDouble (real k * ratio)) [i..<nat count]"
proof (induction i count ratio t rule: createThresholdLoop.induct)
  case (1 i count ratio t)
  show ?case
  proof (cases "int i < count")
    case True
    then have "i < nat count" by simp
    then have "[i..<nat count] = i # [Suc i..<nat count]" by (rule upt_conv_Cons)
    with True "1.IH" show ?thesis
      by (subst createThresholdLoop.simps) simp
  next
    case False
    then have "[i..<nat count] = []" by simp
    with False show ?thesis
      by (subst createThresholdLoop.simps) simp
  qed
qed

lemma createThreshold_eq:
  assumes "progressThreshold st \<noteq> 0"
    and "\<lceil>roundDouble (height / progressThreshold st)\<rceil> \<le> 4294967295"
  shows "createThreshold st height =
     Inr (map (\<lambda>i. roundDouble (real i * roundDouble
                  (1 / real_of_int \<lceil>roundDouble (height / progressThreshold st)\<rceil>)))
              [0..<nat \<lceil>roundDouble (height / progressThreshold st)\<rceil>])"
  using assms by (simp add: createThreshold_def Let_def createThresholdLoop_eq)

text \<open>
  The count is the ceiling of the rounded quotient: the ceiling of the quotient itself, or
  one less where the quotient lies so little above a whole number that it rounds to it.
\<close>

lemma count_bounds:
  assumes "1 / 2 ^ 1075 < q" and "q \<le> 4294967295"
  shows "1 \<le> \<lceil>roundDouble q\<rceil>" and "\<lceil>roundDouble q\<rceil> \<le> \<lceil>q\<rceil>"
    and "\<lceil>q\<rceil> - 1 \<le> \<lceil>roundDouble q\<rceil>" and "\<lceil>q\<rceil> \<le> 4294967295"
proof -
  have q0: "0 < q" using assms(1) by (rule le_less_trans [rotated]) simp
  have "(4294967295::real) < 2 ^ 53" by simp
  with assms(2) have q53: "q < 2 ^ 53" by linarith
  have "(4294967295::real) < 2 ^ 1024" by simp
  with assms(2) have "q < 2 ^ 1024" by linarith
  from roundDouble_pos [OF assms(1) this] show "1 \<le> \<lceil>roundDouble q\<rceil>" by simp
  show c: "\<lceil>q\<rceil> \<le> 4294967295" using assms(2) by (simp add: ceiling_le_iff)
  then have "real_of_int \<lceil>q\<rceil> \<le> 4294967295" by linarith
  then have "real_of_int \<lceil>q\<rceil> < 2 ^ 53" by simp
  moreover have "q \<le> of_int \<lceil>q\<rceil>" by simp
  ultimately have "roundDouble q \<le> of_int \<lceil>q\<rceil>" using q0 by (intro roundDouble_le_int)
  then show "\<lceil>roundDouble q\<rceil> \<le> \<lceil>q\<rceil>" by (simp add: ceiling_le_iff)
  have "of_int \<lfloor>q\<rfloor> \<le> q" by simp
  with q0 have "of_int \<lfloor>q\<rfloor> \<le> roundDouble q" using q53 by (intro roundDouble_ge_int)
  then have "\<lfloor>q\<rfloor> \<le> \<lceil>roundDouble q\<rceil>" by linarith
  then show "\<lceil>q\<rceil> - 1 \<le> \<lceil>roundDouble q\<rceil>" by linarith
qed

text \<open>
  One less is reached: with progressThreshold the double nearest to 4 / 3 and height 4 the
  quotient is a little above 3 and rounds to 3.
\<close>

lemma count_below_ceiling:
  "\<lceil>roundDouble (4 / (6004799503160661 / 2 ^ 52))\<rceil> = 3"
  "\<lceil>(4::real) / (6004799503160661 / 2 ^ 52)\<rceil> = 4"
  "roundDouble (4 / 3) = 6004799503160661 / 2 ^ 52"
  by (simp_all add: double_eval)

lemma createThreshold_list:
  assumes "1 \<le> progressThreshold st" and "progressThreshold st < 2 ^ 1024"
    and "1 \<le> height" and "height / progressThreshold st \<le> 4294967295"
  defines "n \<equiv> nat \<lceil>roundDouble (height / progressThreshold st)\<rceil>"
  shows "createThreshold st height
           = Inr (map (\<lambda>i. roundDouble (real i * roundDouble (1 / real n))) [0..<n])"
    and "1 \<le> n" and "n \<le> 4294967295"
    and "int n \<le> \<lceil>height / progressThreshold st\<rceil>"
    and "\<lceil>height / progressThreshold st\<rceil> - 1 \<le> int n"
proof -
  let ?q = "height / progressThreshold st"
  have p0: "0 < progressThreshold st" using assms(1) by simp
  have "(1::real) / 2 ^ 1075 < 1 / 2 ^ 1024" by simp
  also have "1 / 2 ^ 1024 < 1 / progressThreshold st"
    using p0 assms(2) by (simp add: field_simps)
  also have "1 / progressThreshold st \<le> ?q"
    using p0 assms(3) by (simp add: divide_right_mono)
  finally have q: "1 / 2 ^ 1075 < ?q" .
  note cb = count_bounds [OF q assms(4)]
  from cb(1) have rn: "real_of_int \<lceil>roundDouble ?q\<rceil> = real n"
    and ni: "int n = \<lceil>roundDouble ?q\<rceil>"
    unfolding n_def by simp_all
  from cb(2,4) have le: "\<lceil>roundDouble ?q\<rceil> \<le> 4294967295" by linarith
  have pt0: "progressThreshold st \<noteq> 0" using p0 by simp
  show "createThreshold st height
           = Inr (map (\<lambda>i. roundDouble (real i * roundDouble (1 / real n))) [0..<n])"
    unfolding createThreshold_eq [OF pt0 le] rn n_def [symmetric] by (rule refl)
  show "1 \<le> n" using cb(1) ni by linarith
  show "n \<le> 4294967295" using le ni by linarith
  show "int n \<le> \<lceil>?q\<rceil>" using cb(2) ni by linarith
  show "\<lceil>?q\<rceil> - 1 \<le> int n" using cb(3) ni by linarith
qed

text \<open>
  Claim C10, amended. With the progress threshold a double of at least 1 (as \<open>setup\<close>
  leaves it), a height of at least 1 and their quotient within the largest array length
  4294967295, \<open>createThreshold(height)\<close> returns exactly count values, where count is the
  ceiling of the double quotient height / progressThreshold: it is at least 1, and it is the
  ceiling of the exact quotient or one less. The value at index i is the double product of i
  and the double 1 / count; it differs from i / count by at most i / count over 2 to the
  power 51. The list begins at 0, is strictly increasing, its spacing differs from 1 / count
  by at most 1 over 2 to the power 50, and it never contains 1.
\<close>

theorem createThreshold_progress:
  assumes pt: "1 \<le> progressThreshold st" "progressThreshold st < 2 ^ 1024"
    and h: "1 \<le> height" "height / progressThreshold st \<le> 4294967295"
  defines "count \<equiv> nat \<lceil>roundDouble (height / progressThreshold st)\<rceil>"
  shows "\<exists>t. createThreshold st height = Inr t
           \<and> t = map (\<lambda>i. roundDouble (real i * roundDouble (1 / real count))) [0..<count]
           \<and> length t = count \<and> 1 \<le> count
           \<and> int count \<le> \<lceil>height / progressThreshold st\<rceil>
           \<and> \<lceil>height / progressThreshold st\<rceil> - 1 \<le> int count
           \<and> t ! 0 = 0
           \<and> (\<forall>i < count. \<bar>t ! i - real i / real count\<bar> \<le> (real i / real count) / 2 ^ 51)
           \<and> (\<forall>i. Suc i < count \<longrightarrow>
                  t ! i < t ! Suc i \<and> \<bar>t ! Suc i - t ! i - 1 / real count\<bar> \<le> 1 / 2 ^ 50)
           \<and> 1 \<notin> set t"
proof -
  define t where "t = map (\<lambda>i. roundDouble (real i * roundDouble (1 / real count))) [0..<count]"
  note l = createThreshold_list [OF pt h, folded count_def]
  have eq: "createThreshold st height = Inr t" unfolding t_def by (rule l(1))
  have len: "length t = count" by (simp add: t_def)
  have nth: "t ! i = roundDouble (real i * roundDouble (1 / real count))" if "i < count" for i
    using that by (simp add: t_def)
  have zero: "t ! 0 = 0" using l(2) nth [of 0] by simp
  have acc: "\<bar>t ! i - real i / real count\<bar> \<le> (real i / real count) / 2 ^ 51"
    if "i < count" for i
    using product_accuracy [OF l(2,3), of i] that by (simp add: nth)
  have step: "t ! i < t ! Suc i \<and> \<bar>t ! Suc i - t ! i - 1 / real count\<bar> \<le> 1 / 2 ^ 50"
    if "Suc i < count" for i
  proof -
    from that have s: "Suc i \<le> count" and i: "i < count" by simp_all
    from product_strict_mono [OF l(2,3) s] product_spacing [OF l(2,3) s]
    show ?thesis unfolding nth [OF that] nth [OF i] by simp
  qed
  have no1: "1 \<notin> set t"
  proof
    assume "1 \<in> set t"
    then obtain i where "i < count" "roundDouble (real i * roundDouble (1 / real count)) = 1"
      by (auto simp: t_def)
    with product_less_one [OF l(2,3), of i] show False by simp
  qed
  show ?thesis
  proof (intro exI conjI)
    show "createThreshold st height = Inr t" by (rule eq)
    show "t = map (\<lambda>i. roundDouble (real i * roundDouble (1 / real count))) [0..<count]"
      by (rule t_def)
    show "length t = count" by (rule len)
    show "1 \<le> count" by (rule l(2))
    show "int count \<le> \<lceil>height / progressThreshold st\<rceil>" by (rule l(4))
    show "\<lceil>height / progressThreshold st\<rceil> - 1 \<le> int count" by (rule l(5))
    show "t ! 0 = 0" by (rule zero)
    show "\<forall>i < count. \<bar>t ! i - real i / real count\<bar> \<le> (real i / real count) / 2 ^ 51"
      using acc by blast
    show "\<forall>i. Suc i < count \<longrightarrow>
            t ! i < t ! Suc i \<and> \<bar>t ! Suc i - t ! i - 1 / real count\<bar> \<le> 1 / 2 ^ 50"
      using step by blast
    show "1 \<notin> set t" by (rule no1)
  qed
qed

section \<open>Session controller: results\<close>

lemma updateViewportAboveIO_frame:
  "updateViewportAboveIO e st = Inr st' \<Longrightarrow> st' = st\<lparr>io := io st'\<rparr>"
  by (auto simp: updateViewportAboveIO_def andThen_def split: sum.splits)

lemma updateViewportBelowIO_frame:
  "updateViewportBelowIO e st = Inr st' \<Longrightarrow> st' = st\<lparr>io := io st'\<rparr>"
  by (auto simp: updateViewportBelowIO_def andThen_def split: sum.splits)

lemma updateStepAboveIO_frame:
  "updateStepAboveIO e st = Inr st' \<Longrightarrow> st' = st\<lparr>io := io st'\<rparr>"
  by (auto simp: updateStepAboveIO_def andThen_def split: sum.splits)

lemma updateStepBelowIO_frame:
  "updateStepBelowIO e st = Inr st' \<Longrightarrow> st' = st\<lparr>io := io st'\<rparr>"
  by (auto simp: updateStepBelowIO_def andThen_def split: sum.splits)

lemma updateStepProgressIO_frame:
  "updateStepProgressIO e st = Inr st' \<Longrightarrow> st' = st\<lparr>io := io st'\<rparr>"
  by (auto simp: updateStepProgressIO_def andThen_def split: sum.splits)

lemma updateTopIO_frame:
  "updateTopIO e st c = Inr st' \<Longrightarrow> st' = st\<lparr>io := io st'\<rparr>"
  by (auto simp: updateTopIO_def andThen_def split: sum.splits)

lemma updateBottomIO_frame:
  "updateBottomIO e st c = Inr st' \<Longrightarrow> st' = st\<lparr>io := io st'\<rparr>"
  by (auto simp: updateBottomIO_def andThen_def split: sum.splits option.splits)

lemma frame_trans:
  "st1 = st\<lparr>io := a\<rparr> \<Longrightarrow> st2 = st1\<lparr>io := b\<rparr> \<Longrightarrow> st2 = st\<lparr>io := io st2\<rparr>"
  by simp

lemma updateIO_frame:
  assumes "updateIO e st = Inr st'"
  shows "st' = st\<lparr>io := io st'\<rparr>"
proof -
  from assms obtain st1 st2 st3 st4 st5 where
    s1: "updateViewportAboveIO e st = Inr st1" and
    s2: "updateViewportBelowIO e st1 = Inr st2" and
    s3: "updateStepAboveIO e st2 = Inr st3" and
    s4: "updateStepBelowIO e st3 = Inr st4" and
    s5: "(if progressMode st4 then updateStepProgressIO e st4 else Inr st4) = Inr st5" and
    s6: "(case (containerEl st5, graphicEl st5) of
            (Some c, Some g) \<Rightarrow> andThen (updateTopIO e st5 c) (\<lambda>st6. updateBottomIO e st6 c)
          | _ \<Rightarrow> Inr st5) = Inr st'"
    by (auto simp: updateIO_def andThen_def split: sum.splits)
  have f1: "st1 = st\<lparr>io := io st1\<rparr>" using s1 by (rule updateViewportAboveIO_frame)
  have f2: "st2 = st1\<lparr>io := io st2\<rparr>" using s2 by (rule updateViewportBelowIO_frame)
  have f3: "st3 = st2\<lparr>io := io st3\<rparr>" using s3 by (rule updateStepAboveIO_frame)
  have f4: "st4 = st3\<lparr>io := io st4\<rparr>" using s4 by (rule updateStepBelowIO_frame)
  have f5: "st5 = st4\<lparr>io := io st5\<rparr>"
    using s5 by (auto split: if_splits dest: updateStepProgressIO_frame)
  have f6: "st' = st5\<lparr>io := io st'\<rparr>"
  proof (cases "containerEl st5")
    case None with s6 show ?thesis by simp
  next
    case (Some c)
    show ?thesis
    proof (cases "graphicEl st5")
      case None with Some s6 show ?thesis by simp
    next
      case g: (Some g)
      from s6 Some g obtain st6 where
        a: "updateTopIO e st5 c = Inr st6" and b: "updateBottomIO e st6 c = Inr st'"
        by (auto simp: andThen_def split: sum.splits)
      from updateTopIO_frame [OF a] updateBottomIO_frame [OF b] show ?thesis
        by (rule frame_trans)
    qed
  qed
  have "st2 = st\<lparr>io := io st2\<rparr>" using f1 f2 by (rule frame_trans)
  then have "st3 = st\<lparr>io := io st3\<rparr>" using f3 by (rule frame_trans)
  then have "st4 = st\<lparr>io := io st4\<rparr>" using f4 by (rule frame_trans)
  then have "st5 = st\<lparr>io := io st5\<rparr>" using f5 by (rule frame_trans)
  then show ?thesis using f6 by (rule frame_trans)
qed

lemma handleEnable_False:
  "handleEnable e False st = Inr (st\<lparr>io := disconnectIo (io st), isEnabled := False\<rparr>)"
  by (simp add: handleEnable_def disconnectIo_def)



lemma handleEnable_True_frame:
  assumes "handleEnable e True st = Inr st'"
  shows "st' = st \<or> st' = st\<lparr>io := io st', isEnabled := True\<rparr>"
proof (cases "isEnabled st")
  case True
  with assms show ?thesis by (simp add: handleEnable_def)
next
  case False
  show ?thesis
  proof (cases "isReady st")
    case True
    with False assms obtain st1 where u: "updateIO e st = Inr st1" and s: "st' = st1\<lparr>isEnabled := True\<rparr>"
      by (auto simp: handleEnable_def andThen_def split: sum.splits)
    from updateIO_frame [OF u] have "st1 = st\<lparr>io := io st1\<rparr>" .
    with s have "st' = st\<lparr>io := io st', isEnabled := True\<rparr>" by simp
    then show ?thesis ..
  next
    case r: False
    with False assms have "st' = st\<lparr>isEnabled := True\<rparr>" by (simp add: handleEnable_def)
    then show ?thesis by simp
  qed
qed


lemma initThresholds_zero: "initThresholds ts zeroThreshold = Inr [0]"
  by (simp add: initThresholds_def zeroThreshold_def sort_default_def)




















lemma measured_io [simp]: "measured (st\<lparr>io := i\<rparr>) = measured st"
  by (simp add: measured_def)





lemmas setup_eval = S_setup_def env0_def opts0_def scrollama_def emit_def setupStates_def
     handleResize_def handleEnable_def updateIO_def Let_def
     updateViewportAboveIO_def updateViewportBelowIO_def updateStepAboveIO_def
     updateStepBelowIO_def updateTopIO_def updateBottomIO_def stepObservers_def numAt_def
     newIntersectionObserver_def initThresholds_zero observe_def getEmptyRect_def

lemma setup0: "S_setup env0 opts0 scrollama = Inr session0"
  unfolding session0_def by (simp add: setup_eval)

lemma session0_facts:
  "isReady session0" "isEnabled session0"
  "stepStates session0 = Some [\<lparr>direction = None, state = None\<rparr>, \<lparr>direction = None, state = None\<rparr>]"
  "length (registries (io session0)) = 10"
  "\<forall>obs \<in> set (registries (io session0)). \<not> disconnected obs"
  unfolding session0_def by (simp_all add: setup_eval registries_def disconnected_def)


lemma updateIO_isReady:
  assumes "updateIO e st = Inr st'"
  shows "isReady st' = isReady st"
proof -
  from updateIO_frame [OF assms] have "isReady st' = isReady (st\<lparr>io := io st'\<rparr>)" by simp
  then show ?thesis by simp
qed

lemma handleResize_isReady:
  assumes "handleResize e st = Inr st'"
  shows "isReady st' = isReady st"
  using assms
  by (auto simp: handleResize_def Let_def andThen_def emit_def
           split: sum.splits if_splits dest: updateIO_isReady)

lemma handleEnable_isReady:
  assumes "handleEnable e b st = Inr st'"
  shows "isReady st' = isReady st"
proof (cases b)
  case True
  with assms have "handleEnable e True st = Inr st'" by simp
  from handleEnable_True_frame [OF this] show ?thesis
  proof
    assume "st' = st" then show ?thesis by simp
  next
    assume "st' = st\<lparr>io := io st', isEnabled := True\<rparr>"
    then have "isReady st' = isReady (st\<lparr>io := io st', isEnabled := True\<rparr>)" by simp
    then show ?thesis by simp
  qed
next
  case False
  with assms show ?thesis by (auto simp: handleEnable_False)
qed

text \<open>
  Claim C8. When the step selector resolves to no element, \<open>setup\<close> logs the error and
  returns the session: only the identifier and the three element references are stored. The
  ready and enabled flags, the state tables, the observers and the measured geometry are as
  before, no exception is raised, and a later enable, disable or resize does not make the
  session ready.
\<close>

theorem setup_no_steps:
  assumes "opt_step opts = []"
  shows "\<exists>st'. S_setup e opts st = Inr st'
      \<and> st' = st\<lparr>sid := Some (generatedId e), stepEl := Some [],
                  containerEl := opt_container opts, graphicEl := opt_graphic opts,
                  trace := trace st @ [ConsoleError ''scrollama error: no step elements'']\<rparr>
      \<and> isReady st' = isReady st \<and> isEnabled st' = isEnabled st
      \<and> stepStates st' = stepStates st \<and> containerState st' = containerState st
      \<and> io st' = io st
      \<and> vh st' = vh st \<and> ph st' = ph st \<and> offsetMargin st' = offsetMargin st
      \<and> stepOffsetHeight st' = stepOffsetHeight st \<and> stepOffsetTop st' = stepOffsetTop st
      \<and> bboxGraphic st' = bboxGraphic st
      \<and> (\<forall>st''. S_enable e st' = Inr st'' \<or> S_disable e st' = Inr st'' \<or> S_resize e st' = Inr st''
             \<longrightarrow> isReady st'' = isReady st)"
proof -
  let ?st' = "st\<lparr>sid := Some (generatedId e), stepEl := Some [],
                  containerEl := opt_container opts, graphicEl := opt_graphic opts,
                  trace := trace st @ [ConsoleError ''scrollama error: no step elements'']\<rparr>"
  have s: "S_setup e opts st = Inr ?st'"
    using assms by (simp add: S_setup_def emit_def)
  have later: "isReady st'' = isReady st"
    if "S_enable e ?st' = Inr st'' \<or> S_disable e ?st' = Inr st'' \<or> S_resize e ?st' = Inr st''"
    for st''
  proof -
    from that have "isReady st'' = isReady ?st'"
      unfolding S_enable_def S_disable_def S_resize_def
      by (elim disjE) (erule handleEnable_isReady handleResize_isReady)+
    then show ?thesis by simp
  qed
  show ?thesis
  proof (intro exI [of _ ?st'] conjI)
    show "\<forall>st''. S_enable e ?st' = Inr st'' \<or> S_disable e ?st' = Inr st'' \<or> S_resize e ?st' = Inr st''
             \<longrightarrow> isReady st'' = isReady st"
      using later by blast
  qed (simp_all add: s)
qed

theorem setup_no_steps_witness:
  "\<exists>st' st''. S_setup env0 optsNoStep scrollama = Inr st' \<and> \<not> isReady st' \<and> \<not> isEnabled st'
      \<and> stepStates st' = None \<and> io st' = io scrollama
      \<and> trace st' = [ConsoleError ''scrollama error: no step elements'']
      \<and> S_enable env0 st' = Inr st'' \<and> \<not> isReady st''"
proof -
  have h: "opt_step optsNoStep = []" by (simp add: optsNoStep_def)
  from setup_no_steps [OF h, of env0 scrollama] obtain st' where
    s: "S_setup env0 optsNoStep scrollama = Inr st'" and
    e: "st' = scrollama\<lparr>sid := Some (generatedId env0), stepEl := Some [],
                  containerEl := opt_container optsNoStep, graphicEl := opt_graphic optsNoStep,
                  trace := trace scrollama @ [ConsoleError ''scrollama error: no step elements'']\<rparr>" and
    later: "\<forall>st''. S_enable env0 st' = Inr st'' \<or> S_disable env0 st' = Inr st''
                \<or> S_resize env0 st' = Inr st'' \<longrightarrow> isReady st'' = isReady scrollama"
    by blast
  have "\<exists>st''. S_enable env0 st' = Inr st''"
    unfolding e by (simp add: S_enable_def handleEnable_def scrollama_def)
  then obtain st'' where en: "S_enable env0 st' = Inr st''" ..
  with later have "isReady st'' = isReady scrollama" by blast
  then have "\<not> isReady st''" by (simp add: scrollama_def)
  with s e en show ?thesis by (simp add: scrollama_def)
qed

text \<open>
  Claim C5. \<open>offsetTrigger(x)\<close> should store x clamped into [0, 1] and return the session
  for every number x. For x = 0 the guard \<open>x && !isNaN(x)\<close> is false, since 0 is falsy:
  on a session whose offset is 0.5 the call returns the number 0.5 and leaves the offset at
  0.5, where the claim has offset 0 and the session object.
\<close>

theorem offsetTrigger_zero:
  "S_offsetTrigger (scrollama\<lparr>offsetVal := 1/2\<rparr>) (Some (Num 0))
     = (Value (1/2), scrollama\<lparr>offsetVal := 1/2\<rparr>)"
  by simp

lemma offsetTrigger_nonzero:
  "x \<noteq> 0 \<Longrightarrow> S_offsetTrigger st (Some (Num x)) = (Session, st\<lparr>offsetVal := min (max 0 x) 1\<rparr>)"
  by simp

lemma offsetTrigger_getter: "S_offsetTrigger st None = (Value (offsetVal st), st)"
  by simp

section \<open>Progress thresholds after setup\<close>

lemma progressThreshold_session0: "progressThreshold session0 = 4"
  unfolding session0_def by (simp add: setup_eval)

text \<open>
  Claim C10, as stated, has the values i / count with uniform spacing 1 / count. After
  \<open>setup\<close> with the default threshold 4, \<open>createThreshold(40)\<close> has count 10 and
  ratio the double nearest to 1 / 10, which lies above it; the product 3 * ratio falls
  halfway between two doubles and rounds to 0.30000000000000004. The value at index 3 is
  not 3 / 10, nor the double nearest to it, and the steps from index 1 to 2 and from 2 to 3
  differ.
\<close>

theorem createThreshold_counterexample:
  "\<exists>t. createThreshold session0 40 = Inr t
      \<and> t = [0, 3602879701896397 / 2 ^ 55, 3602879701896397 / 2 ^ 54,
             1351079888211149 / 2 ^ 52, 3602879701896397 / 2 ^ 53, 1 / 2,
             1351079888211149 / 2 ^ 51, 6305039478318695 / 2 ^ 53,
             3602879701896397 / 2 ^ 52, 8106479329266893 / 2 ^ 53]
      \<and> t ! 3 \<noteq> 3 / 10 \<and> t ! 3 \<noteq> roundDouble (3 / 10)
      \<and> t ! 3 - t ! 2 \<noteq> t ! 2 - t ! 1"
proof -
  have c: "roundDouble 10 = 10" by (simp add: double_eval)
  have r: "roundDouble (1 / 10) = 3602879701896397 / 2 ^ 55" by (simp add: double_eval)
  have e: "createThreshold session0 40
             = Inr (map (\<lambda>i. roundDouble (real i * (3602879701896397 / 2 ^ 55))) [0..<10])"
    by (simp add: createThreshold_def progressThreshold_session0 Let_def c r
          createThresholdLoop_eq)
  have v: "roundDouble (0 * (3602879701896397 / 2 ^ 55)) = 0"
    "roundDouble (1 * (3602879701896397 / 2 ^ 55)) = 3602879701896397 / 2 ^ 55"
    "roundDouble (2 * (3602879701896397 / 2 ^ 55)) = 3602879701896397 / 2 ^ 54"
    "roundDouble (3 * (3602879701896397 / 2 ^ 55)) = 1351079888211149 / 2 ^ 52"
    "roundDouble (4 * (3602879701896397 / 2 ^ 55)) = 3602879701896397 / 2 ^ 53"
    "roundDouble (5 * (3602879701896397 / 2 ^ 55)) = 1 / 2"
    "roundDouble (6 * (3602879701896397 / 2 ^ 55)) = 1351079888211149 / 2 ^ 51"
    "roundDouble (7 * (3602879701896397 / 2 ^ 55)) = 6305039478318695 / 2 ^ 53"
    "roundDouble (8 * (3602879701896397 / 2 ^ 55)) = 3602879701896397 / 2 ^ 52"
    "roundDouble (9 * (3602879701896397 / 2 ^ 55)) = 8106479329266893 / 2 ^ 53"
    by (simp_all add: double_eval)
  have u: "[0..<10] = [0, 1, 2, 3, 4, 5, 6, 7, 8, 9]" by (simp add: upt_rec)
  have l: "createThreshold session0 40
      = Inr [0, 3602879701896397 / 2 ^ 55, 3602879701896397 / 2 ^ 54,
             1351079888211149 / 2 ^ 52, 3602879701896397 / 2 ^ 53, 1 / 2,
             1351079888211149 / 2 ^ 51, 6305039478318695 / 2 ^ 53,
             3602879701896397 / 2 ^ 52, 8106479329266893 / 2 ^ 53]"
    unfolding e u using v by simp
  have d: "roundDouble (3 / 10) = 5404319552844595 / 2 ^ 54" by (simp add: double_eval)
  show ?thesis unfolding l d by simp
qed

theorem createThreshold_progress_witness:
  "createThreshold session0 10 = Inr [0, 6004799503160661 / 2 ^ 54, 6004799503160661 / 2 ^ 53]"
proof -
  note pt = progressThreshold_session0
  have c: "nat \<lceil>roundDouble (10 / progressThreshold session0)\<rceil> = 3"
    unfolding pt by (simp add: double_eval)
  have h: "1 \<le> progressThreshold session0" "progressThreshold session0 < 2 ^ 1024"
    "(1::real) \<le> 10" "10 / progressThreshold session0 \<le> 4294967295"
    unfolding pt by simp_all
  from createThreshold_progress [OF h] obtain t where
    "createThreshold session0 10 = Inr t"
    "t = map (\<lambda>i. roundDouble (real i * roundDouble
                 (1 / real (nat \<lceil>roundDouble (10 / progressThreshold session0)\<rceil>))))
             [0..<nat \<lceil>roundDouble (10 / progressThreshold session0)\<rceil>]"
    by blast
  moreover have "roundDouble (1 / 3) = 6004799503160661 / 2 ^ 54" by (simp add: double_eval)
  moreover have "roundDouble (2 * (6004799503160661 / 2 ^ 54)) = 6004799503160661 / 2 ^ 53"
    "roundDouble (6004799503160661 / 2 ^ 54) = 6004799503160661 / 2 ^ 54"
    by (simp_all add: double_eval)
  ultimately show ?thesis unfolding c by (simp add: upt_rec)
qed


text \<open>\<open>setup\<close> floors the progress threshold at 1, and nothing after it changes the value.\<close>

lemma updateIO_progressThreshold:
  assumes "updateIO e st = Inr st'"
  shows "progressThreshold st' = progressThreshold st"
proof -
  from updateIO_frame [OF assms]
  have "progressThreshold st' = progressThreshold (st\<lparr>io := io st'\<rparr>)" by simp
  then show ?thesis by simp
qed

lemma handleResize_progressThreshold:
  assumes "handleResize e st = Inr st'"
  shows "progressThreshold st' = progressThreshold st"
  using assms
  by (auto simp: handleResize_def Let_def andThen_def emit_def
           split: sum.splits if_splits dest: updateIO_progressThreshold)

lemma handleEnable_progressThreshold:
  assumes "handleEnable e b st = Inr st'"
  shows "progressThreshold st' = progressThreshold st"
  using assms
  by (auto simp: handleEnable_def Let_def andThen_def
           split: sum.splits if_splits dest: updateIO_progressThreshold)

lemma offsetTrigger_progressThreshold:
  "progressThreshold (snd (S_offsetTrigger st x)) = progressThreshold st"
  by (cases "(st, x)" rule: S_offsetTrigger.cases) simp_all

lemma setup_progressThreshold:
  assumes "S_setup e opts st = Inr st'" and "opt_step opts \<noteq> []"
  shows "progressThreshold st' = max 1 (case opt_threshold opts of None \<Rightarrow> 4 | Some t \<Rightarrow> t)"
    and "1 \<le> progressThreshold st'"
proof -
  from assms obtain a b where
    r: "handleResize e a = Inr b" and en: "handleEnable e True b = Inr st'" and
    a: "progressThreshold a = max 1 (case opt_threshold opts of None \<Rightarrow> 4 | Some t \<Rightarrow> t)"
    by (auto simp: S_setup_def Let_def andThen_def emit_def setupStates_def
                   offsetTrigger_progressThreshold split: sum.splits if_splits)
  from handleResize_progressThreshold [OF r] handleEnable_progressThreshold [OF en] a
  show "progressThreshold st' = max 1 (case opt_threshold opts of None \<Rightarrow> 4 | Some t \<Rightarrow> t)"
    by simp
  then show "1 \<le> progressThreshold st'" by simp
qed

section \<open>Step sequencer: results\<close>

lemma notifyFrame_refl [simp]: "notifyFrame st st"
  by (simp add: notifyFrame_def)

lemma notifyFrame_trans: "notifyFrame a b \<Longrightarrow> notifyFrame b c \<Longrightarrow> notifyFrame a c"
  unfolding notifyFrame_def
proof -
  assume 1: "b = a\<lparr>stepStates := stepStates b, exclude := exclude b, trace := trace b\<rparr>"
    and 2: "c = b\<lparr>stepStates := stepStates c, exclude := exclude c, trace := trace c\<rparr>"
  have "c = (a\<lparr>stepStates := stepStates b, exclude := exclude b, trace := trace b\<rparr>)
             \<lparr>stepStates := stepStates c, exclude := exclude c, trace := trace c\<rparr>"
    by (subst 2, subst 1) simp
  then show "c = a\<lparr>stepStates := stepStates c, exclude := exclude c, trace := trace c\<rparr>"
    by simp
qed

lemma notifyFrame_config:
  assumes "notifyFrame st st'"
  shows "callback st' = callback st" "progressMode st' = progressMode st"
    "debugMode st' = debugMode st" "triggerOnce st' = triggerOnce st"
    "preserveOrder st' = preserveOrder st"
proof -
  let ?s = "st\<lparr>stepStates := stepStates st', exclude := exclude st', trace := trace st'\<rparr>"
  from assms have e: "st' = ?s" by (simp add: notifyFrame_def)
  have "callback st' = callback ?s" by (subst e) (rule refl)
  then show "callback st' = callback st" by simp
  have "progressMode st' = progressMode ?s" by (subst e) (rule refl)
  then show "progressMode st' = progressMode st" by simp
  have "debugMode st' = debugMode ?s" by (subst e) (rule refl)
  then show "debugMode st' = debugMode st" by simp
  have "triggerOnce st' = triggerOnce ?s" by (subst e) (rule refl)
  then show "triggerOnce st' = triggerOnce st" by simp
  have "preserveOrder st' = preserveOrder ?s" by (subst e) (rule refl)
  then show "preserveOrder st' = preserveOrder st" by simp
qed

lemma stepEvents_append [simp]: "stepEvents (a @ b) = stepEvents a @ stepEvents b"
  by (simp add: stepEvents_def)

lemma stepEvents_simps [simp]:
  "stepEvents [] = []"
  "stepEvents (OnStepEnter i d # tr) = OnStepEnter i d # stepEvents tr"
  "stepEvents (OnStepExit i d # tr) = OnStepExit i d # stepEvents tr"
  "stepEvents (OnStepProgress i p # tr) = stepEvents tr"
  "stepEvents (DebugStep i q # tr) = stepEvents tr"
  by (simp_all add: stepEvents_def)

lemma notifyStepExit_result:
  assumes "stepStates st = Some l" "i < length l"
  shows "\<exists>st'. notifyStepExit st i d = Inr st' \<and> notifyFrame st st'
           \<and> stepStates st' = Some (l[i := \<lparr>direction = Some d, state = Some Exit\<rparr>])
           \<and> exclude st' = exclude st
           \<and> stepEvents (trace st') = stepEvents (trace st)
                @ (if callable (stepExit (callback st)) then [OnStepExit i d] else [])"
  using assms
  by (simp add: notifyStepExit_def setStepState_def notifyStepProgress_def emit_def Let_def
                notifyFrame_def)

lemma enterCallbacks_result:
  "notifyFrame st (enterCallbacks st i d)
   \<and> stepStates (enterCallbacks st i d) = stepStates st
   \<and> exclude st \<subseteq> exclude (enterCallbacks st i d)
   \<and> exclude (enterCallbacks st i d) \<subseteq> insert i (exclude st)
   \<and> stepEvents (trace (enterCallbacks st i d)) = stepEvents (trace st)
        @ (if callable (stepEnter (callback st)) \<and> i \<notin> exclude st then [OnStepEnter i d] else [])
   \<and> (callable (stepEnter (callback st)) \<and> i \<notin> exclude st \<and> triggerOnce st
        \<longrightarrow> i \<in> exclude (enterCallbacks st i d))"
  by (auto simp: enterCallbacks_def notifyStepProgress_def emit_def Let_def notifyFrame_def)


lemma notifyStepEnterUnchecked_result:
  assumes "stepStates st = Some l" "i < length l"
  shows "\<exists>st'. notifyStepEnterUnchecked st i d = Inr st' \<and> notifyFrame st st'
           \<and> stepStates st' = Some (l[i := \<lparr>direction = Some d, state = Some Enter\<rparr>])
           \<and> exclude st \<subseteq> exclude st' \<and> exclude st' \<subseteq> insert i (exclude st)
           \<and> stepEvents (trace st') = stepEvents (trace st)
                @ (if callable (stepEnter (callback st)) \<and> i \<notin> exclude st
                   then [OnStepEnter i d] else [])"
proof -
  let ?st1 = "st\<lparr>stepStates := Some (l[i := \<lparr>direction = Some d, state = Some Enter\<rparr>])\<rparr>"
  have s: "setStepState st i d Enter = Inr ?st1"
    using assms by (simp add: setStepState_def)
  have f1: "notifyFrame st ?st1" by (simp add: notifyFrame_def)
  note r = enterCallbacks_result [of ?st1 i d]
  have "notifyFrame st (enterCallbacks ?st1 i d)"
    using f1 r by (blast intro: notifyFrame_trans)
  moreover have "notifyStepEnterUnchecked st i d = Inr (enterCallbacks ?st1 i d)"
    by (simp add: notifyStepEnterUnchecked_def s)
  ultimately show ?thesis using r by simp
qed

lemma getStepState_Some:
  "stepStates st = Some l \<Longrightarrow> j < length l \<Longrightarrow> getStepState st j = Inr (l ! j)"
  by (simp add: getStepState_def)

lemma skippedAbove_gen: "skippedAbove st i = skippedGen Down st i"
  by (simp add: skippedAbove_def skippedGen_def)

lemma skippedBelow_gen: "skippedBelow st i = skippedGen Up st i"
  by (simp add: skippedBelow_def skippedGen_def)

lemma othersResult_Nil: "stepStates st = Some l \<Longrightarrow> othersResult d st l [] st"
  by (simp add: othersResult_def)

lemma skippedGen_result:
  assumes l: "stepStates st = Some l" and j: "j < length l"
  shows "\<exists>st'. skippedGen d st j = Inr st' \<and> othersResult d st l [j] st'"
proof -
  have g: "getStepState st j = Inr (l ! j)" using l j by (rule getStepState_Some)
  show ?thesis
  proof (cases "state (l ! j) = Some Enter")
    case True
    from notifyStepExit_result [OF l j, of d] obtain st1 where
      x: "notifyStepExit st j d = Inr st1" and f: "notifyFrame st st1" and
      s1: "stepStates st1 = Some (l[j := \<lparr>direction = Some d, state = Some Exit\<rparr>])" and
      e1: "exclude st1 = exclude st" and
      t1: "stepEvents (trace st1) = stepEvents (trace st)
             @ (if callable (stepExit (callback st)) then [OnStepExit j d] else [])"
      by blast
    have g1: "getStepState st1 j = Inr \<lparr>direction = Some d, state = Some Exit\<rparr>"
      using s1 j by (simp add: getStepState_def)
    have nd: "d \<noteq> opposite d" by (cases d) simp_all
    have r: "skippedGen d st j = Inr st1"
      using True nd by (simp add: skippedGen_def g x g1)
    have "othersResult d st l [j] st1"
      unfolding othersResult_def using True f s1 e1 t1 j
      by (auto simp: skippedEvents_def exitEvent_def)
    with r show ?thesis by blast
  next
    case False
    show ?thesis
    proof (cases "direction (l ! j) = Some (opposite d)")
      case True
      from notifyStepEnterUnchecked_result [OF l j, of d] obtain st2 where
        n: "notifyStepEnterUnchecked st j d = Inr st2" and f2: "notifyFrame st st2" and
        s2: "stepStates st2 = Some (l[j := \<lparr>direction = Some d, state = Some Enter\<rparr>])" and
        e2: "exclude st \<subseteq> exclude st2" "exclude st2 \<subseteq> insert j (exclude st)" and
        t2: "stepEvents (trace st2) = stepEvents (trace st)
               @ (if callable (stepEnter (callback st)) \<and> j \<notin> exclude st
                  then [OnStepEnter j d] else [])"
        by blast
      have j2: "j < length (l[j := \<lparr>direction = Some d, state = Some Enter\<rparr>])"
        using j by simp
      from notifyStepExit_result [OF s2 j2, of d] obtain st3 where
        x: "notifyStepExit st2 j d = Inr st3" and f3: "notifyFrame st2 st3" and
        s3: "stepStates st3 = Some ((l[j := \<lparr>direction = Some d, state = Some Enter\<rparr>])
                   [j := \<lparr>direction = Some d, state = Some Exit\<rparr>])" and
        e3: "exclude st3 = exclude st2" and
        t3: "stepEvents (trace st3) = stepEvents (trace st2)
               @ (if callable (stepExit (callback st2)) then [OnStepExit j d] else [])"
        by blast
      have c2: "callback st2 = callback st" using f2 by (rule notifyFrame_config)
      have r: "skippedGen d st j = Inr st3"
        using False True by (simp add: skippedGen_def g n x)
      have f: "notifyFrame st st3" using f2 f3 by (rule notifyFrame_trans)
      have "othersResult d st l [j] st3"
        unfolding othersResult_def using False True f s3 e2 e3 t2 t3 j c2
        by (auto simp: skippedEvents_def exitEvent_def enterEvent_def)
      with r show ?thesis by blast
    next
      case other: False
      have r: "skippedGen d st j = Inr st"
        using False other by (simp add: skippedGen_def g)
      have "othersResult d st l [j] st"
        unfolding othersResult_def using False other l
        by (auto simp: skippedEvents_def)
      with r show ?thesis by blast
    qed
  qed
qed

lemma othersResult_step:
  assumes a: "othersResult d st l [j] st1"
    and l1: "stepStates st1 = Some l1"
    and b: "othersResult d st1 l1 js st2"
    and nj: "j \<notin> set js"
  shows "othersResult d st l (j # js) st2"
proof -
  from a l1 have len: "length l1 = length l" and same: "\<forall>k. k \<noteq> j \<longrightarrow> l1 ! k = l ! k"
    by (auto simp: othersResult_def)
  from a have f1: "notifyFrame st st1" and
    e1: "exclude st \<subseteq> exclude st1" "exclude st1 \<subseteq> insert j (exclude st)"
    by (auto simp: othersResult_def)
  have c1: "callback st1 = callback st" using f1 by (rule notifyFrame_config)
  have m: "map (\<lambda>k. skippedEvents st1 d (l1 ! k) k) js = map (\<lambda>k. skippedEvents st d (l ! k) k) js"
  proof (intro map_cong refl)
    fix k assume "k \<in> set js"
    with nj have kj: "k \<noteq> j" by auto
    then have "l1 ! k = l ! k" using same by simp
    moreover have "k \<in> exclude st1 \<longleftrightarrow> k \<in> exclude st" using e1 kj by auto
    ultimately show "skippedEvents st1 d (l1 ! k) k = skippedEvents st d (l ! k) k"
      by (simp add: skippedEvents_def enterEvent_def exitEvent_def c1)
  qed
  from a b have f: "notifyFrame st st2"
    by (auto simp: othersResult_def intro: notifyFrame_trans)
  from b l1 obtain l2 where l2: "stepStates st2 = Some l2" "length l2 = length l1"
      "\<forall>k. k \<notin> set js \<longrightarrow> l2 ! k = l1 ! k"
    by (auto simp: othersResult_def)
  have "\<forall>k. k \<notin> set (j # js) \<longrightarrow> l2 ! k = l ! k" using l2(3) same by simp
  moreover have "exclude st \<subseteq> exclude st2" "exclude st2 \<subseteq> exclude st \<union> set (j # js)"
    using a b by (auto simp: othersResult_def)
  moreover have "stepEvents (trace st2)
       = stepEvents (trace st) @ concat (map (\<lambda>k. skippedEvents st d (l ! k) k) (j # js))"
    using a b m by (simp add: othersResult_def)
  ultimately show ?thesis
    unfolding othersResult_def using f l2 len by auto
qed

lemma notifyOthersAbove_result:
  assumes "stepStates st = Some l" "index \<le> length l"
  shows "\<exists>st'. notifyOthersAbove i index st = Inr st' \<and> othersResult Down st l [i..<index] st'"
  using assms
proof (induction "index - i" arbitrary: i st l)
  case 0
  then have "\<not> i < index" by simp
  then have "notifyOthersAbove i index st = Inr st" "[i..<index] = []"
    by (simp_all add: notifyOthersAbove.simps)
  with 0 show ?case by (simp add: othersResult_Nil)
next
  case (Suc n)
  then have lt: "i < index" by simp
  then have il: "i < length l" using Suc.prems by simp
  from skippedGen_result [OF Suc.prems(1) il, of Down] obtain st1 where
    s: "skippedAbove st i = Inr st1" and r: "othersResult Down st l [i] st1"
    unfolding skippedAbove_gen by blast
  from r obtain l1 where l1: "stepStates st1 = Some l1" "length l1 = length l"
    by (auto simp: othersResult_def)
  have n: "n = index - Suc i" using Suc.hyps(2) by simp
  have le1: "index \<le> length l1" using l1 Suc.prems(2) by simp
  from Suc.hyps(1) [OF n l1(1) le1] obtain st2 where
    o: "notifyOthersAbove (Suc i) index st1 = Inr st2" and
    r2: "othersResult Down st1 l1 [Suc i..<index] st2"
    by blast
  have "notifyOthersAbove i index st = Inr st2"
    using lt s o by (subst notifyOthersAbove.simps) simp
  moreover have "othersResult Down st l (i # [Suc i..<index]) st2"
    using r l1(1) r2 by (rule othersResult_step) simp
  moreover have "[i..<index] = i # [Suc i..<index]" using lt by (rule upt_conv_Cons)
  ultimately show ?case by simp
qed

lemma notifyOthersBelow_result:
  assumes "stepStates st = Some l" "n \<le> length l"
  shows "\<exists>st'. notifyOthersBelow n index st = Inr st'
           \<and> othersResult Up st l (rev [Suc index..<n]) st'"
  using assms
proof (induction n arbitrary: st l)
  case 0
  then show ?case by (simp add: othersResult_Nil)
next
  case (Suc m)
  show ?case
  proof (cases "m > index")
    case False
    then have "[Suc index..<Suc m] = []" by simp
    with False Suc.prems show ?thesis by (simp add: othersResult_Nil)
  next
    case True
    have ml: "m < length l" using Suc.prems by simp
    from skippedGen_result [OF Suc.prems(1) ml, of Up] obtain st1 where
      s: "skippedBelow st m = Inr st1" and r: "othersResult Up st l [m] st1"
      unfolding skippedBelow_gen by blast
    from r obtain l1 where l1: "stepStates st1 = Some l1" "length l1 = length l"
      by (auto simp: othersResult_def)
    have le1: "m \<le> length l1" using l1 ml by simp
    from Suc.IH [OF l1(1) le1] obtain st2 where
      o: "notifyOthersBelow m index st1 = Inr st2" and
      r2: "othersResult Up st1 l1 (rev [Suc index..<m]) st2"
      by blast
    have "notifyOthersBelow (Suc m) index st = Inr st2"
      using True s o by simp
    moreover have "othersResult Up st l (m # rev [Suc index..<m]) st2"
      using r l1(1) r2 by (rule othersResult_step) simp
    moreover have "rev [Suc index..<Suc m] = m # rev [Suc index..<m]" using True by simp
    ultimately show ?thesis by simp
  qed
qed

lemma skippedEvents_stepStates_update [simp]:
  "skippedEvents (st\<lparr>stepStates := x\<rparr>) d ss j = skippedEvents st d ss j"
  by (simp add: skippedEvents_def enterEvent_def exitEvent_def)

lemma andThen_Inr [simp]: "andThen r Inr = r"
  by (cases r) simp_all

lemma notifyStepEnter_result:
  fixes d :: direction and c :: bool
  assumes l: "stepStates st = Some l" and i: "i < length l"
  defines "js \<equiv> skippedSteps st i d c (length l)"
  shows "\<exists>st' l'. notifyStepEnter st i d c = Inr st' \<and> notifyFrame st st'
           \<and> stepStates st' = Some l' \<and> length l' = length l
           \<and> l' ! i = \<lparr>direction = Some d, state = Some Enter\<rparr>
           \<and> exclude st \<subseteq> exclude st'
           \<and> (callable (stepEnter (callback st)) \<and> i \<notin> exclude st \<and> triggerOnce st
                \<longrightarrow> i \<in> exclude st')
           \<and> stepEvents (trace st') = stepEvents (trace st)
                @ concat (map (\<lambda>j. skippedEvents st d (l ! j) j) js)
                @ enterEvent st i d"
proof -
  let ?l1 = "l[i := \<lparr>direction = Some d, state = Some Enter\<rparr>]"
  let ?st1 = "st\<lparr>stepStates := Some ?l1\<rparr>"
  have s: "setStepState st i d Enter = Inr ?st1" using l i by (simp add: setStepState_def)
  have l1: "stepStates ?st1 = Some ?l1" by simp
  have inotin: "i \<notin> set js" by (cases d) (simp_all add: js_def skippedSteps_def)
  have others: "\<exists>st3. andThen (if preserveOrder ?st1 \<and> c \<and> d = Down
                               then notifyOthers ?st1 i Above else Inr ?st1) (\<lambda>st2.
                        if preserveOrder st2 \<and> c \<and> d = Up
                        then notifyOthers st2 i Below else Inr st2) = Inr st3
        \<and> othersResult d ?st1 ?l1 js st3"
  proof (cases "preserveOrder st \<and> c")
    case False
    then have "js = []" by (auto simp: js_def skippedSteps_def)
    with False show ?thesis by (auto simp: othersResult_Nil)
  next
    case True
    show ?thesis
    proof (cases d)
      case Down
      have le: "i \<le> length ?l1" using i by simp
      have j: "js = [0..<i]" using True Down by (simp add: js_def skippedSteps_def)
      from notifyOthersAbove_result [OF l1 le, of 0] True Down j show ?thesis
        by (auto simp: notifyOthers_def)
    next
      case Up
      have le: "length ?l1 \<le> length ?l1" by simp
      have j: "js = rev [Suc i..<length ?l1]" using True Up by (simp add: js_def skippedSteps_def)
      from notifyOthersBelow_result [OF l1 le, of i] True Up j show ?thesis
        by (auto simp: notifyOthers_def othersResult_def dest: notifyFrame_config(5))
    qed
  qed
  then obtain st3 where
    o: "andThen (if preserveOrder ?st1 \<and> c \<and> d = Down
                 then notifyOthers ?st1 i Above else Inr ?st1) (\<lambda>st2.
          if preserveOrder st2 \<and> c \<and> d = Up
          then notifyOthers st2 i Below else Inr st2) = Inr st3" and
    r: "othersResult d ?st1 ?l1 js st3"
    by blast
  from r have f: "notifyFrame ?st1 st3" by (simp add: othersResult_def)
  have f1: "notifyFrame st ?st1" by (simp add: notifyFrame_def)
  have f3: "notifyFrame st st3" using f1 f by (rule notifyFrame_trans)
  have cfg: "callback st3 = callback st" "triggerOnce st3 = triggerOnce st"
    using notifyFrame_config [OF f3] by simp_all
  from r obtain l3 where l3: "stepStates st3 = Some l3" "length l3 = length ?l1"
    "\<forall>k. k \<notin> set js \<longrightarrow> l3 ! k = ?l1 ! k"
    by (auto simp: othersResult_def)
  have e3: "exclude st \<subseteq> exclude st3" "exclude st3 \<subseteq> exclude st \<union> set js"
    using r by (auto simp: othersResult_def)
  have ex3: "i \<in> exclude st3 \<longleftrightarrow> i \<in> exclude st" using e3 inotin by auto
  have m: "map (\<lambda>j. skippedEvents ?st1 d (?l1 ! j) j) js = map (\<lambda>j. skippedEvents st d (l ! j) j) js"
  proof (intro map_cong refl)
    fix k assume "k \<in> set js"
    with inotin have "k \<noteq> i" by auto
    then have "?l1 ! k = l ! k" by simp
    then show "skippedEvents ?st1 d (?l1 ! k) k = skippedEvents st d (l ! k) k" by simp
  qed
  from r have t3: "stepEvents (trace st3)
      = stepEvents (trace st) @ concat (map (\<lambda>j. skippedEvents st d (l ! j) j) js)"
    unfolding othersResult_def m by simp
  from o obtain st2 where
    a: "(if preserveOrder ?st1 \<and> c \<and> d = Down
         then notifyOthers ?st1 i Above else Inr ?st1) = Inr st2" and
    b: "(if preserveOrder st2 \<and> c \<and> d = Up
         then notifyOthers st2 i Below else Inr st2) = Inr st3"
    by (auto simp: andThen_def split: sum.splits)
  have run: "notifyStepEnter st i d c = Inr (enterCallbacks st3 i d)"
    using a b by (simp add: notifyStepEnter_def s)
  note ec = enterCallbacks_result [of st3 i d]
  have "notifyFrame st (enterCallbacks st3 i d)" using f3 ec by (blast intro: notifyFrame_trans)
  moreover have "stepStates (enterCallbacks st3 i d) = Some l3" using ec l3 by simp
  moreover have "length l3 = length l" using l3 by simp
  moreover have "l3 ! i = \<lparr>direction = Some d, state = Some Enter\<rparr>"
    using l3(3) inotin i by simp
  moreover have "exclude st \<subseteq> exclude (enterCallbacks st3 i d)" using ec e3 by blast
  moreover have "callable (stepEnter (callback st)) \<and> i \<notin> exclude st \<and> triggerOnce st
                \<longrightarrow> i \<in> exclude (enterCallbacks st3 i d)"
    using ec cfg ex3 by simp
  moreover have "stepEvents (trace (enterCallbacks st3 i d)) = stepEvents (trace st)
                @ concat (map (\<lambda>j. skippedEvents st d (l ! j) j) js)
                @ enterEvent st i d"
    using ec t3 cfg ex3 by (simp add: enterEvent_def)
  ultimately show ?thesis using run by blast
qed

text \<open>
  Claim C1, amended. With preserveOrder enabled, both callbacks registered and no step
  excluded, a genuine enter of step i scrolling down first gives every step j < i that is
  entered one synthesized exit, and every step j < i that is not entered and whose recorded
  direction is up a synthesized enter followed by a synthesized exit; the other earlier steps
  get nothing. These come in increasing index order, before the enter callback of step i.
  For an upward enter the same holds over the steps i+1 .. last in decreasing order, with
  down as the recorded direction.
\<close>

theorem preserveOrder_enter:
  assumes po: "preserveOrder st" and l: "stepStates st = Some l" and i: "i < length l"
    and cb: "callable (stepEnter (callback st))" "callable (stepExit (callback st))"
    and ex: "\<forall>j < length l. j \<notin> exclude st"
  shows "(\<exists>st'. notifyStepEnter st i Down True = Inr st'
            \<and> stepEvents (trace st') = stepEvents (trace st)
                 @ concat (map (\<lambda>j. synthesizedDown (l ! j) j) [0..<i])
                 @ [OnStepEnter i Down])
       \<and> (\<exists>st'. notifyStepEnter st i Up True = Inr st'
            \<and> stepEvents (trace st') = stepEvents (trace st)
                 @ concat (map (\<lambda>j. synthesizedUp (l ! j) j) (rev [Suc i..<length l]))
                 @ [OnStepEnter i Up])"
proof -
  have syn: "skippedEvents st Down (l ! j) j = synthesizedDown (l ! j) j"
            "skippedEvents st Up (l ! j) j = synthesizedUp (l ! j) j" if "j < length l" for j
    using that cb ex
    by (simp_all add: skippedEvents_def synthesizedDown_def synthesizedUp_def
                      enterEvent_def exitEvent_def)
  have en: "enterEvent st i d = [OnStepEnter i d]" for d
    using cb ex i by (simp add: enterEvent_def)
  have jd: "skippedSteps st i Down True (length l) = [0..<i]"
    and ju: "skippedSteps st i Up True (length l) = rev [Suc i..<length l]"
    using po by (simp_all add: skippedSteps_def)
  have md: "map (\<lambda>j. skippedEvents st Down (l ! j) j) [0..<i]
            = map (\<lambda>j. synthesizedDown (l ! j) j) [0..<i]"
    using i by (intro map_cong refl syn) simp
  have mu: "map (\<lambda>j. skippedEvents st Up (l ! j) j) (rev [Suc i..<length l])
            = map (\<lambda>j. synthesizedUp (l ! j) j) (rev [Suc i..<length l])"
    by (intro map_cong refl syn) simp
  from notifyStepEnter_result [OF l i, of Down True]
  have "\<exists>st'. notifyStepEnter st i Down True = Inr st'
            \<and> stepEvents (trace st') = stepEvents (trace st)
                 @ concat (map (\<lambda>j. synthesizedDown (l ! j) j) [0..<i])
                 @ [OnStepEnter i Down]"
    unfolding jd md en by blast
  moreover from notifyStepEnter_result [OF l i, of Up True]
  have "\<exists>st'. notifyStepEnter st i Up True = Inr st'
            \<and> stepEvents (trace st') = stepEvents (trace st)
                 @ concat (map (\<lambda>j. synthesizedUp (l ! j) j) (rev [Suc i..<length l]))
                 @ [OnStepEnter i Up]"
    unfolding ju mu en by blast
  ultimately show ?thesis by (rule conjI)
qed

lemma sessionCb_facts:
  "preserveOrder sessionCb" "\<not> triggerOnce sessionCb" "\<not> progressMode sessionCb"
  "\<not> debugMode sessionCb"
  "stepStates sessionCb = Some [\<lparr>direction = None, state = None\<rparr>, \<lparr>direction = None, state = None\<rparr>]"
  "callback sessionCb = \<lparr>stepEnter = Function 1, stepExit = Function 2, stepProgress = Absent,
      containerEnter = Absent, containerExit = Absent\<rparr>"
  "exclude sessionCb = {}" "trace sessionCb = []"
  unfolding sessionCb_def session0_def S_onStepEnter_def S_onStepExit_def
  by (simp_all add: setup_eval)

lemmas notify_eval = notifyStepEnter_def notifyStepExit_def setStepState_def getStepState_def
  enterCallbacks_def notifyStepEnterUnchecked_def notifyStepProgress_def emit_def
  notifyOthers_def notifyOthersAbove.simps skippedAbove_def skippedBelow_def Let_def

lemma sessionEntered0_eq:
  "sessionEntered0 = sessionCb\<lparr>stepStates := Some [\<lparr>direction = Some Down, state = Some Enter\<rparr>,
                                         \<lparr>direction = None, state = None\<rparr>],
                    trace := [OnStepEnter 0 Down]\<rparr>"
  by (simp add: sessionEntered0_def notify_eval sessionCb_facts)

text \<open>
  Claim C1, as stated, asks for a synthesized exit and then a synthesized enter and exit for
  an earlier step that is entered and whose recorded direction was also down. Step 0 of
  \<open>sessionEntered0\<close> is such a step; entering step 1 scrolling down delivers one exit for
  it and no more: \<open>notifyOthers\<close> tests the recorded direction for up, and reads it after
  the exit has set it to down.
\<close>

theorem preserveOrder_counterexample:
  "stepStateAt sessionEntered0 0 = Some \<lparr>direction = Some Down, state = Some Enter\<rparr>
   \<and> traceOf (Inr sessionEntered0) = Some [OnStepEnter 0 Down]
   \<and> traceOf (notifyStepEnter sessionEntered0 1 Down True)
       = Some ([OnStepEnter 0 Down] @ [OnStepExit 0 Down] @ [OnStepEnter 1 Down])
   \<and> claimedDown \<lparr>direction = Some Down, state = Some Enter\<rparr> 0
       = [OnStepExit 0 Down, OnStepEnter 0 Down, OnStepExit 0 Down]"
  by (simp add: sessionEntered0_eq notify_eval sessionCb_facts claimedDown_def traceOf_def
                stepStateAt_def)

theorem preserveOrder_enter_witness:
  "\<exists>st'. notifyStepEnter sessionEntered0 1 Down True = Inr st'
      \<and> stepEvents (trace st') = [OnStepEnter 0 Down, OnStepExit 0 Down, OnStepEnter 1 Down]"
proof -
  have po: "preserveOrder sessionEntered0"
    and l: "stepStates sessionEntered0
       = Some [\<lparr>direction = Some Down, state = Some Enter\<rparr>, \<lparr>direction = None, state = None\<rparr>]"
    and i: "1 < length [\<lparr>direction = Some Down, state = Some Enter\<rparr>, \<lparr>direction = None, state = None\<rparr>]"
    and cb: "callable (stepEnter (callback sessionEntered0))"
            "callable (stepExit (callback sessionEntered0))"
    and ex: "\<forall>j < length [\<lparr>direction = Some Down, state = Some Enter\<rparr>, \<lparr>direction = None, state = None\<rparr>].
               j \<notin> exclude sessionEntered0"
    and tr: "trace sessionEntered0 = [OnStepEnter 0 Down]"
    by (simp_all add: sessionEntered0_eq sessionCb_facts)
  from preserveOrder_enter [OF po l i cb ex] obtain st' where
    "notifyStepEnter sessionEntered0 1 Down True = Inr st'"
    "stepEvents (trace st') = stepEvents (trace sessionEntered0)
       @ concat (map (\<lambda>j. synthesizedDown
            ([\<lparr>direction = Some Down, state = Some Enter\<rparr>, \<lparr>direction = None, state = None\<rparr>] ! j) j) [0..<1])
       @ [OnStepEnter 1 Down]"
    by blast
  then show ?thesis by (simp add: tr synthesizedDown_def)
qed

lemma entersOf_append [simp]: "entersOf i (a @ b) = entersOf i a @ entersOf i b"
  by (simp add: entersOf_def)

lemma entersOf_Nil [simp]: "entersOf i [] = []"
  by (simp add: entersOf_def)

lemma entersOf_stepEvents: "entersOf i (stepEvents tr) = entersOf i tr"
proof -
  have "isStepEvent e \<and> isEnterOf i e \<longleftrightarrow> isEnterOf i e" for e
    by (cases e) simp_all
  then show ?thesis by (simp add: entersOf_def stepEvents_def)
qed

lemma entersOf_concat_empty:
  "(\<And>k. k \<in> set js \<Longrightarrow> entersOf i (f k) = []) \<Longrightarrow> entersOf i (concat (map f js)) = []"
  by (induction js) simp_all

lemma entersOf_exit [simp]: "entersOf i (OnStepExit j d # tr) = entersOf i tr"
  by (simp add: entersOf_def)

lemma entersOf_exitEvent [simp]: "entersOf i (exitEvent st j d) = []"
  by (simp add: exitEvent_def entersOf_def)

lemma entersOf_enterEvent:
  "entersOf i (enterEvent st j d)
     = (if j = i \<and> callable (stepEnter (callback st)) \<and> i \<notin> exclude st
        then [OnStepEnter i d] else [])"
  by (simp add: enterEvent_def entersOf_def)

lemma entersOf_skippedEvents:
  "j \<noteq> i \<or> i \<in> exclude st \<Longrightarrow> entersOf i (skippedEvents st d ss j) = []"
  by (auto simp: skippedEvents_def entersOf_enterEvent)

lemma setStepState_InrD:
  "setStepState st j d p = Inr st' \<Longrightarrow> \<exists>l. stepStates st = Some l \<and> j < length l"
  by (auto simp: setStepState_def split: option.splits if_splits)

lemma notifyStepEnter_InrD:
  assumes "notifyStepEnter st j d c = Inr st'"
  shows "\<exists>l. stepStates st = Some l \<and> j < length l"
proof (cases "setStepState st j d Enter")
  case (Inl e)
  with assms show ?thesis by (simp add: notifyStepEnter_def)
next
  case (Inr a)
  then show ?thesis by (rule setStepState_InrD)
qed

lemma notifyStepExit_InrD:
  assumes "notifyStepExit st j d = Inr st'"
  shows "\<exists>l. stepStates st = Some l \<and> j < length l"
proof (cases "setStepState st j d Exit")
  case (Inl e)
  with assms show ?thesis by (simp add: notifyStepExit_def)
next
  case (Inr a)
  then show ?thesis by (rule setStepState_InrD)
qed

lemma notifyStepEnter_enters:
  assumes r: "notifyStepEnter st j d c = Inr st'" and ji: "j = i \<or> i \<in> exclude st"
  shows "entersOf i (trace st')
           = entersOf i (trace st)
             @ (if j = i \<and> callable (stepEnter (callback st)) \<and> i \<notin> exclude st
                then [OnStepEnter i d] else [])"
    and "exclude st \<subseteq> exclude st'"
    and "j = i \<and> callable (stepEnter (callback st)) \<and> i \<notin> exclude st \<and> triggerOnce st
           \<longrightarrow> i \<in> exclude st'"
    and "stepStateAt st' j = Some \<lparr>direction = Some d, state = Some Enter\<rparr>"
    and "notifyFrame st st'"
proof -
  from notifyStepEnter_InrD [OF r] obtain l where l: "stepStates st = Some l" "j < length l"
    by blast
  let ?js = "skippedSteps st j d c (length l)"
  from notifyStepEnter_result [OF l, of d c] r obtain l' where
    f: "notifyFrame st st'" and
    s: "stepStates st' = Some l'" "length l' = length l"
       "l' ! j = \<lparr>direction = Some d, state = Some Enter\<rparr>" and
    e: "exclude st \<subseteq> exclude st'" and
    o: "callable (stepEnter (callback st)) \<and> j \<notin> exclude st \<and> triggerOnce st
          \<longrightarrow> j \<in> exclude st'" and
    t: "stepEvents (trace st') = stepEvents (trace st)
          @ concat (map (\<lambda>k. skippedEvents st d (l ! k) k) ?js) @ enterEvent st j d"
    by auto
  have nj: "j \<notin> set ?js" by (cases d) (simp_all add: skippedSteps_def)
  have sk: "entersOf i (concat (map (\<lambda>k. skippedEvents st d (l ! k) k) ?js)) = []"
    if "j = i \<or> i \<in> exclude st"
  proof (rule entersOf_concat_empty)
    fix k assume "k \<in> set ?js"
    with nj have "k \<noteq> j" by auto
    with that show "entersOf i (skippedEvents st d (l ! k) k) = []"
      by (intro entersOf_skippedEvents) auto
  qed
  have "entersOf i (trace st') = entersOf i (stepEvents (trace st'))"
    by (simp add: entersOf_stepEvents)
  also have "\<dots> = entersOf i (trace st)
      @ entersOf i (concat (map (\<lambda>k. skippedEvents st d (l ! k) k) ?js))
      @ entersOf i (enterEvent st j d)"
    unfolding t by (simp add: entersOf_stepEvents)
  finally have full: "entersOf i (trace st') = entersOf i (trace st)
      @ entersOf i (concat (map (\<lambda>k. skippedEvents st d (l ! k) k) ?js))
      @ entersOf i (enterEvent st j d)" .
  show "notifyFrame st st'" by (rule f)
  show "exclude st \<subseteq> exclude st'" by (rule e)
  show "j = i \<and> callable (stepEnter (callback st)) \<and> i \<notin> exclude st \<and> triggerOnce st
           \<longrightarrow> i \<in> exclude st'"
    using o by auto
  show "stepStateAt st' j = Some \<lparr>direction = Some d, state = Some Enter\<rparr>"
    using s l by (simp add: stepStateAt_def)
  show "entersOf i (trace st')
           = entersOf i (trace st)
             @ (if j = i \<and> callable (stepEnter (callback st)) \<and> i \<notin> exclude st
                then [OnStepEnter i d] else [])"
    unfolding full sk [OF ji] by (simp add: entersOf_enterEvent)
qed

lemma notifyStepExit_enters:
  assumes r: "notifyStepExit st j d = Inr st'"
  shows "entersOf i (trace st') = entersOf i (trace st)"
    and "exclude st' = exclude st"
    and "stepStateAt st' j = Some \<lparr>direction = Some d, state = Some Exit\<rparr>"
    and "notifyFrame st st'"
proof -
  from notifyStepExit_InrD [OF r] obtain l where l: "stepStates st = Some l" "j < length l"
    by blast
  from notifyStepExit_result [OF l, of d] r have
    f: "notifyFrame st st'" and
    s: "stepStates st' = Some (l[j := \<lparr>direction = Some d, state = Some Exit\<rparr>])" and
    e: "exclude st' = exclude st" and
    t: "stepEvents (trace st') = stepEvents (trace st)
             @ (if callable (stepExit (callback st)) then [OnStepExit j d] else [])"
    by auto
  have "entersOf i (trace st') = entersOf i (stepEvents (trace st'))"
    by (simp add: entersOf_stepEvents)
  also have "\<dots> = entersOf i (trace st)"
    unfolding t by (simp add: entersOf_stepEvents)
  finally show "entersOf i (trace st') = entersOf i (trace st)" .
  show "exclude st' = exclude st" by (rule e)
  show "notifyFrame st st'" by (rule f)
  show "stepStateAt st' j = Some \<lparr>direction = Some d, state = Some Exit\<rparr>"
    using s l by (simp add: stepStateAt_def)
qed

lemma crossings_quiet:
  assumes "crossings cs st = Inr st'" and "i \<in> exclude st"
  shows "entersOf i (trace st') = entersOf i (trace st) \<and> i \<in> exclude st'
         \<and> triggerOnce st' = triggerOnce st \<and> callback st' = callback st"
  using assms
proof (induction cs arbitrary: st)
  case Nil
  then show ?case by simp
next
  case (Cons c cs)
  show ?case
  proof (cases c)
    case (EnterStep j d)
    with Cons.prems obtain st1 where
      a: "notifyStepEnter st j d True = Inr st1" and b: "crossings cs st1 = Inr st'"
      by (auto simp: andThen_def split: sum.splits)
    have ji: "j = i \<or> i \<in> exclude st" using Cons.prems(2) by simp
    from notifyStepEnter_enters(1,2,5) [OF a ji] Cons.prems(2)
    have 1: "entersOf i (trace st1) = entersOf i (trace st)" "i \<in> exclude st1"
      "notifyFrame st st1"
      by auto
    from Cons.IH [OF b 1(2)] 1 notifyFrame_config [OF 1(3)] show ?thesis by simp
  next
    case (ExitStep j d)
    with Cons.prems obtain st1 where
      a: "notifyStepExit st j d = Inr st1" and b: "crossings cs st1 = Inr st'"
      by (auto simp: andThen_def split: sum.splits)
    from notifyStepExit_enters(1) [OF a, of i] notifyStepExit_enters(2,4) [OF a] Cons.prems(2)
    have 1: "entersOf i (trace st1) = entersOf i (trace st)" "i \<in> exclude st1"
      "notifyFrame st st1"
      by auto
    from Cons.IH [OF b 1(2)] 1 notifyFrame_config [OF 1(3)] show ?thesis by simp
  qed
qed

text \<open>
  Claim C4, amended. With triggerOnce enabled, the first enter of a step fires its enter
  callback and excludes the step; after that no sequence of enter and exit crossings fires an
  enter callback for the step again, while each later enter or exit of the step still
  records its direction and phase in the step state.
\<close>

theorem triggerOnce_enter_suppressed:
  assumes once: "triggerOnce st" and cb: "callable (stepEnter (callback st))"
    and l: "stepStates st = Some l" and i: "i < length l" and ex: "i \<notin> exclude st"
  shows "\<exists>st1. notifyStepEnter st i d c = Inr st1
           \<and> entersOf i (trace st1) = entersOf i (trace st) @ [OnStepEnter i d]
           \<and> i \<in> exclude st1
           \<and> (\<forall>cs st2. crossings cs st1 = Inr st2 \<longrightarrow>
                  entersOf i (trace st2) = entersOf i (trace st1) \<and> i \<in> exclude st2)
           \<and> (\<forall>cs st2 d' st3. crossings cs st1 = Inr st2 \<longrightarrow>
                  (notifyStepEnter st2 i d' True = Inr st3 \<longrightarrow>
                     stepStateAt st3 i = Some \<lparr>direction = Some d', state = Some Enter\<rparr>)
                  \<and> (notifyStepExit st2 i d' = Inr st3 \<longrightarrow>
                     stepStateAt st3 i = Some \<lparr>direction = Some d', state = Some Exit\<rparr>))"
proof -
  from notifyStepEnter_result [OF l i, of d c] obtain st1 where
    r: "notifyStepEnter st i d c = Inr st1" by blast
  have ii: "i = i \<or> i \<in> exclude st" by simp
  from notifyStepEnter_enters(1,3) [OF r ii] once cb ex
  have e1: "entersOf i (trace st1) = entersOf i (trace st) @ [OnStepEnter i d]"
    and x1: "i \<in> exclude st1"
    by simp_all
  have q: "entersOf i (trace st2) = entersOf i (trace st1) \<and> i \<in> exclude st2"
    if "crossings cs st1 = Inr st2" for cs st2
    using crossings_quiet [OF that x1] by simp
  have s: "(notifyStepEnter st2 i d' True = Inr st3 \<longrightarrow>
               stepStateAt st3 i = Some \<lparr>direction = Some d', state = Some Enter\<rparr>)
         \<and> (notifyStepExit st2 i d' = Inr st3 \<longrightarrow>
               stepStateAt st3 i = Some \<lparr>direction = Some d', state = Some Exit\<rparr>)"
    for st2 d' st3
  proof (intro conjI impI)
    assume a: "notifyStepEnter st2 i d' True = Inr st3"
    have "i = i \<or> i \<in> exclude st2" by simp
    from notifyStepEnter_enters(4) [OF a this]
    show "stepStateAt st3 i = Some \<lparr>direction = Some d', state = Some Enter\<rparr>" .
  next
    assume a: "notifyStepExit st2 i d' = Inr st3"
    from notifyStepExit_enters(3) [OF a]
    show "stepStateAt st3 i = Some \<lparr>direction = Some d', state = Some Exit\<rparr>" .
  qed
  show ?thesis
  proof (intro exI [of _ st1] conjI allI impI)
    show "notifyStepEnter st i d c = Inr st1" by (rule r)
    show "entersOf i (trace st1) = entersOf i (trace st) @ [OnStepEnter i d]" by (rule e1)
    show "i \<in> exclude st1" by (rule x1)
  qed (use q s in blast)+
qed

lemma sessionOnce_facts:
  "preserveOrder sessionOnce" "triggerOnce sessionOnce" "\<not> progressMode sessionOnce"
  "\<not> debugMode sessionOnce"
  "stepStates sessionOnce = Some [\<lparr>direction = None, state = None\<rparr>, \<lparr>direction = None, state = None\<rparr>]"
  "callback sessionOnce = \<lparr>stepEnter = Function 1, stepExit = Function 2, stepProgress = Absent,
      containerEnter = Absent, containerExit = Absent\<rparr>"
  "exclude sessionOnce = {}" "trace sessionOnce = []"
  unfolding sessionOnce_def optsOnce_def S_onStepEnter_def S_onStepExit_def
  by (simp_all add: setup_eval)

lemma once_enter0:
  "notifyStepEnter sessionOnce 0 Down True =
     Inr (sessionOnce\<lparr>stepStates := Some [\<lparr>direction = Some Down, state = Some Enter\<rparr>,
                                           \<lparr>direction = None, state = None\<rparr>],
                      exclude := {0},
                      trace := [OnStepEnter 0 Down]\<rparr>)"
  by (simp add: notify_eval sessionOnce_facts)

text \<open>
  Claim C4, as stated, also has every later exit callback suppressed. \<open>notifyStepExit\<close>
  never looks at the exclusions: with \<open>once: true\<close>, entering and leaving step 0 downwards
  and then upwards delivers one enter callback and both exit callbacks.
\<close>

theorem triggerOnce_counterexample:
  "triggerOnce sessionOnce
   \<and> traceOf (crossings [EnterStep 0 Down, ExitStep 0 Down, EnterStep 0 Up, ExitStep 0 Up]
                sessionOnce)
     = Some [OnStepEnter 0 Down, OnStepExit 0 Down, OnStepExit 0 Up]"
  by (simp add: once_enter0 notify_eval sessionOnce_facts traceOf_def)

theorem triggerOnce_enter_suppressed_witness:
  "\<exists>st1 st2 st3. notifyStepEnter sessionOnce 0 Down True = Inr st1
      \<and> crossings [ExitStep 0 Down] st1 = Inr st2
      \<and> notifyStepEnter st2 0 Up True = Inr st3
      \<and> entersOf 0 (trace st1) = [OnStepEnter 0 Down]
      \<and> entersOf 0 (trace st2) = [OnStepEnter 0 Down]
      \<and> 0 \<in> exclude st2
      \<and> stepStateAt st3 0 = Some \<lparr>direction = Some Up, state = Some Enter\<rparr>"
proof -
  have h: "triggerOnce sessionOnce" "callable (stepEnter (callback sessionOnce))"
    "stepStates sessionOnce = Some [\<lparr>direction = None, state = None\<rparr>, \<lparr>direction = None, state = None\<rparr>]"
    "0 < length [\<lparr>direction = None, state = None\<rparr>, \<lparr>direction = None, state = None\<rparr>]"
    "0 \<notin> exclude sessionOnce"
    by (simp_all add: sessionOnce_facts)
  from triggerOnce_enter_suppressed [OF h, of Down True] obtain st1 where
    a: "notifyStepEnter sessionOnce 0 Down True = Inr st1" and
    b: "entersOf 0 (trace st1) = entersOf 0 (trace sessionOnce) @ [OnStepEnter 0 Down]" and
    c: "\<forall>cs st2. crossings cs st1 = Inr st2 \<longrightarrow>
                  entersOf 0 (trace st2) = entersOf 0 (trace st1) \<and> 0 \<in> exclude st2" and
    d: "\<forall>cs st2 d' st3. crossings cs st1 = Inr st2 \<longrightarrow>
                  (notifyStepEnter st2 0 d' True = Inr st3 \<longrightarrow>
                     stepStateAt st3 0 = Some \<lparr>direction = Some d', state = Some Enter\<rparr>)
                  \<and> (notifyStepExit st2 0 d' = Inr st3 \<longrightarrow>
                     stepStateAt st3 0 = Some \<lparr>direction = Some d', state = Some Exit\<rparr>)"
    by blast
  from a have st1: "st1 = sessionOnce\<lparr>stepStates := Some [\<lparr>direction = Some Down, state = Some Enter\<rparr>,
                                           \<lparr>direction = None, state = None\<rparr>],
                      exclude := {0},
                      trace := [OnStepEnter 0 Down]\<rparr>"
    by (simp add: once_enter0)
  have "\<exists>st2. crossings [ExitStep 0 Down] st1 = Inr st2"
    unfolding st1 by (simp add: notify_eval sessionOnce_facts)
  then obtain st2 where e: "crossings [ExitStep 0 Down] st1 = Inr st2" ..
  have "\<exists>st3. notifyStepEnter st2 0 Up True = Inr st3"
    using e unfolding st1 by (auto simp: notify_eval sessionOnce_facts)
  then obtain st3 where f: "notifyStepEnter st2 0 Up True = Inr st3" ..
  from c e have "entersOf 0 (trace st2) = entersOf 0 (trace st1) \<and> 0 \<in> exclude st2" by blast
  moreover from d e f have "stepStateAt st3 0 = Some \<lparr>direction = Some Up, state = Some Enter\<rparr>"
    by blast
  moreover have "entersOf 0 (trace st1) = [OnStepEnter 0 Down]"
    using b by (simp add: sessionOnce_facts)
  ultimately show ?thesis using a e f by auto
qed

text \<open>With \<open>check = false\<close> no other step is notified.\<close>

lemma notifyStepEnter_no_check:
  "notifyStepEnter st i d False = notifyStepEnterUnchecked st i d"
  by (simp add: notifyStepEnter_def notifyStepEnterUnchecked_def)

text \<open>Crossings of existing steps always return.\<close>

lemma crossings_total:
  assumes "stepStates st = Some l" and "\<forall>c \<in> set cs. crossingIndex c < length l"
  shows "\<exists>st'. crossings cs st = Inr st'"
  using assms
proof (induction cs arbitrary: st l)
  case Nil
  then show ?case by simp
next
  case (Cons c cs)
  show ?case
  proof (cases c)
    case (EnterStep i d)
    with Cons.prems have i: "i < length l" by simp
    from notifyStepEnter_result [OF Cons.prems(1) i, of d True] obtain st1 l1 where
      a: "notifyStepEnter st i d True = Inr st1" and
      l1: "stepStates st1 = Some l1" "length l1 = length l"
      by blast
    have "\<forall>c \<in> set cs. crossingIndex c < length l1" using Cons.prems(2) l1 by simp
    from Cons.IH [OF l1(1) this] a EnterStep show ?thesis by simp
  next
    case (ExitStep i d)
    with Cons.prems have i: "i < length l" by simp
    from notifyStepExit_result [OF Cons.prems(1) i, of d] obtain st1 where
      a: "notifyStepExit st i d = Inr st1" and
      l1: "stepStates st1 = Some (l[i := \<lparr>direction = Some d, state = Some Exit\<rparr>])"
      by blast
    have "\<forall>c \<in> set cs. crossingIndex c < length (l[i := \<lparr>direction = Some d, state = Some Exit\<rparr>])"
      using Cons.prems(2) by simp
    from Cons.IH [OF l1 this] a ExitStep show ?thesis by simp
  qed
qed

section \<open>The thresholds of the progress registry\<close>

lemma createThreshold_sorted_distinct:
  assumes pt: "1 \<le> progressThreshold st" "progressThreshold st < 2 ^ 1024"
    and h: "1 \<le> height" "height / progressThreshold st \<le> 4294967295"
    and c: "createThreshold st height = Inr t"
  shows "sorted t" "distinct t" "\<forall>x \<in> set t. 0 \<le> x \<and> x < 1"
proof -
  define n where "n = nat \<lceil>roundDouble (height / progressThreshold st)\<rceil>"
  define f where "f = (\<lambda>i. roundDouble (real i * roundDouble (1 / real n)))"
  note l = createThreshold_list [OF pt h, folded n_def]
  from l(1) c have t: "t = map f [0..<n]" by (simp add: f_def)
  have s: "f i < f (Suc i)" if "Suc i \<le> n" for i
    unfolding f_def using product_strict_mono [OF l(2,3) that] .
  have m: "f i < f j" if "i < j" "j \<le> n" for i j
    using that
  proof (induction j)
    case 0
    then show ?case by simp
  next
    case (Suc j)
    show ?case
    proof (cases "i = j")
      case True
      with s [of j] Suc.prems(2) show ?thesis by simp
    next
      case False
      with Suc.prems have "i < j" "j \<le> n" by simp_all
      from Suc.IH [OF this] s [of j] Suc.prems(2) show ?thesis by simp
    qed
  qed
  have "sorted_wrt (<) t"
    unfolding t sorted_wrt_map
    by (rule sorted_wrt_mono_rel [of _ "(<)"]) (auto intro: m)
  then show "sorted t" "distinct t"
    by (simp_all add: strict_sorted_iff)
  show "\<forall>x \<in> set t. 0 \<le> x \<and> x < 1"
    unfolding t f_def
    using product_nonneg [OF l(2,3)] product_less_one [OF l(2,3)] by auto
qed

text \<open>
  The observer built for the progress registry keeps the list of \<open>createThreshold\<close> as its
  thresholds whenever the string forms of its values are ordered as the values are.
\<close>

lemma initThresholds_createThreshold:
  assumes pt: "1 \<le> progressThreshold st" "progressThreshold st < 2 ^ 1024"
    and h: "1 \<le> height" "height / progressThreshold st \<le> 4294967295"
    and c: "createThreshold st height = Inr t"
    and mono: "\<forall>x y. x \<in> set t \<and> y \<in> set t \<and> x < y \<longrightarrow> ts x < ts y"
  shows "initThresholds ts (Array (map (\<lambda>x. Number (Num x)) t)) = Inr t"
proof -
  note sd = createThreshold_sorted_distinct [OF pt h c]
  let ?a = "map (\<lambda>x. Number (Num x)) t"
  have valid: "\<forall>v \<in> set ?a. validThreshold v" using sd(3) by auto
  have m: "\<forall>x y. Number (Num x) \<in> set ?a \<and> Number (Num y) \<in> set ?a \<and> x < y \<longrightarrow> ts x < ts y"
    using mono by auto
  from initThresholds_sorted_if_monotone [OF valid m] obtain ys where
    r: "initThresholds ts (Array ?a) = Inr ys" and s: "sorted ys" and d: "distinct ys" and
    e: "set ys = numOf ` set ?a"
    by blast
  have "numOf ` set ?a = set t" by (auto simp: image_image)
  with e have "set ys = set t" by simp
  with s d sd(1,2) have "ys = t" by (intro sorted_distinct_set_unique)
  with r show ?thesis by simp
qed

end
